theory Spec2Isabelle
  imports Main "HOL-Library.Word"
begin

unbundle bit_operations_syntax

section \<open>Data model\<close>

text \<open>
  \<^verbatim>\<open>using Board = array<array<int,9>,9>;\<close>
  A board is a list of rows, each a list of cell values (\<open>int\<close>, 0 for an empty
  cell). Row and column indices are the loop counters of the source, which only take
  the values 0..8; they are natural numbers here.  The masks are the 32-bit \<open>int\<close>s
  of the source, read as bit vectors.
\<close>

type_synonym Board = "int list list"
type_synonym mask = "32 word"

definition blockIndex :: "nat \<Rightarrow> nat \<Rightarrow> nat" where
  "blockIndex r c = (r div 3) * 3 + (c div 3)"

text \<open>The cell positions in the order of the loops
  \<^verbatim>\<open>for (int r=0;r<9;++r) for (int c=0;c<9;++c)\<close>.\<close>

definition cells :: "(nat \<times> nat) list" where
  "cells = concat (map (\<lambda>r. map (\<lambda>c. (r, c)) [0..<9]) [0..<9])"

definition at :: "Board \<Rightarrow> nat \<times> nat \<Rightarrow> int" where
  "at b p = b ! fst p ! snd p"

definition set_cell :: "Board \<Rightarrow> nat \<Rightarrow> nat \<Rightarrow> int \<Rightarrow> Board" where
  "set_cell b r c v = b[r := (b ! r)[c := v]]"

record Solver =
  board :: Board
  rowMask :: "mask list"
  colMask :: "mask list"
  blockMask :: "mask list"
  empties :: "(nat \<times> nat) list"

text \<open>\<^verbatim>\<open>Solver::reset\<close>: the state every field of which has been cleared.\<close>

definition reset :: Solver where
  "reset = \<lparr>board = replicate 9 (replicate 9 0),
            rowMask = replicate 9 0, colMask = replicate 9 0, blockMask = replicate 9 0,
            empties = []\<rparr>"

section \<open>Loading a board\<close>

text \<open>
  The first loop of \<^verbatim>\<open>Solver::loadBoard\<close> over the remaining cell positions; the
  Boolean is \<open>False\<close> where the source returns false from inside the loop.
\<close>

text \<open>\<^verbatim>\<open>1 << n\<close> on a 32-bit \<^verbatim>\<open>int\<close>.\<close>

definition shl1 :: "int \<Rightarrow> mask" where
  "shl1 n = push_bit (nat n) 1"

fun load_scan :: "(nat \<times> nat) list \<Rightarrow> Solver \<Rightarrow> bool \<times> Solver" where
  "load_scan [] s = (True, s)"
| "load_scan (p # ps) s =
    (let r = fst p; c = snd p; v = board s ! r ! c in
     if v = 0 then load_scan ps s
     else
       let bit = shl1 (v - 1) in
       if rowMask s ! r AND bit \<noteq> 0 then (False, s)
       else if colMask s ! c AND bit \<noteq> 0 then (False, s)
       else
         let bi = blockIndex r c in
         if blockMask s ! bi AND bit \<noteq> 0 then (False, s)
         else load_scan ps
           (s\<lparr>rowMask := (rowMask s)[r := rowMask s ! r OR bit],
              colMask := (colMask s)[c := colMask s ! c OR bit],
              blockMask := (blockMask s)[bi := blockMask s ! bi OR bit]\<rparr>))"

definition loadBoard :: "Board \<Rightarrow> bool \<times> Solver" where
  "loadBoard b =
    (case load_scan cells (reset\<lparr>board := b\<rparr>) of
       (False, s) \<Rightarrow> (False, s)
     | (True, s) \<Rightarrow> (True, s\<lparr>empties := filter (\<lambda>p. board s ! fst p ! snd p = 0) cells\<rparr>))"

definition candidatesMask :: "Solver \<Rightarrow> nat \<Rightarrow> nat \<Rightarrow> mask" where
  "candidatesMask s r c =
    (let used = rowMask s ! r OR colMask s ! c OR blockMask s ! blockIndex r c
     in (NOT used) AND 0x1FF)"

lemma blockIndex_less: "r < 9 \<Longrightarrow> c < 9 \<Longrightarrow> blockIndex r c < 9"
  unfolding blockIndex_def by arith

section \<open>Bit masks\<close>

text \<open>\<^verbatim>\<open>__builtin_popcount\<close> and \<^verbatim>\<open>__builtin_ctz\<close> on 32 bits.\<close>

definition popcount :: "mask \<Rightarrow> nat" where
  "popcount w = length (filter (bit w) [0..<32])"

definition ctz :: "mask \<Rightarrow> nat" where
  "ctz w = (case find (bit w) [0..<32] of Some n \<Rightarrow> n | None \<Rightarrow> 32)"

lemma odd_and_minus: "odd (m::'a::len word) \<Longrightarrow> m AND - m = 1"
  apply (rule bit_eqI)
  apply (auto simp: bit_simps bit_0 )
  by (metis odd_bit_iff_bit_pred)

lemma lowbit_general:
  fixes m :: "'a::len word"
  shows "bit m k \<Longrightarrow> (\<forall>j<k. \<not> bit m j) \<Longrightarrow> m AND - m = push_bit k 1"
proof (induction k arbitrary: m)
  case 0
  then show ?case by (simp add: odd_and_minus bit_0)
next
  case (Suc k)
  have ev: "even m" using Suc.prems(2) by (auto simp: bit_0)
  define m' where "m' = m div 2"
  have m: "m = push_bit 1 m'" using ev mult_div_mod_eq[of 2 m] unfolding m'_def
    by (simp add: even_iff_mod_2_eq_zero push_bit_eq_mult mult.commute)
  have "bit m' k" using Suc.prems(1) by (simp add: bit_Suc m'_def)
  moreover have "\<forall>j<k. \<not> bit m' j" using Suc.prems(2) by (auto simp: bit_Suc m'_def)
  ultimately have ih: "m' AND - m' = push_bit k 1" by (rule Suc.IH)
  have "- m = push_bit 1 (- m')" unfolding m by (simp add: push_bit_eq_mult)
  then have "m AND - m = push_bit 1 (m' AND - m')"
    using m by (metis push_bit_and)
  then show ?case using ih by (simp add: push_bit_eq_mult)
qed

lemma ctz_least:
  assumes "m \<noteq> (0::mask)"
  shows "ctz m < 32 \<and> bit m (ctz m) \<and> (\<forall>j<ctz m. \<not> bit m j)"
proof -
  from assms obtain n where n: "bit m n" by (auto simp: bit_eq_iff)
  then have "n < 32" using bit_imp_le_length[of m n] by simp
  with n have "find (bit m) [0..<32] \<noteq> None" unfolding find_None_iff by auto
  then obtain k where k: "find (bit m) [0..<32] = Some k" by auto
  then obtain i where i: "i < 32" "bit m ([0..<32] ! i)" "k = [0..<32] ! i"
      "\<forall>j<i. \<not> bit m ([0..<32] ! j)"
    unfolding find_Some_iff by auto
  have ki: "k = i" using i(1,3) by (simp del: upt_Suc)
  have "\<forall>j<k. \<not> bit m j"
  proof (intro allI impI)
    fix j assume "j < k"
    then have "j < i" "j < 32" using ki i(1) by auto
    then show "\<not> bit m j" using i(4) nth_upt[of 0 j 32] by (auto simp del: upt_Suc)
  qed
  moreover have "bit m k" using i(1,2) ki by (simp del: upt_Suc)
  ultimately show ?thesis using k ki i(1) by (simp add: ctz_def)
qed

lemma lowbit: "m \<noteq> (0::mask) \<Longrightarrow> m AND - m = push_bit (ctz m) 1"
  using ctz_least lowbit_general by blast

lemma ctz_push_bit: "k < 32 \<Longrightarrow> ctz (push_bit k 1 :: mask) = k"
proof -
  assume k: "k < 32"
  then have "(push_bit k 1 :: mask) \<noteq> 0" by (auto simp: bit_eq_iff bit_simps)
  from ctz_least[OF this] show ?thesis by (auto simp: bit_simps)
qed

lemma clear_lowbit: "bit (m::mask) k \<Longrightarrow> m - push_bit k 1 = m AND NOT (push_bit k 1)"
  apply (rule disjunctive_diff_eq_and_not)
  apply (rule bit_eqI)
  apply (auto simp: bit_simps)
  done

text \<open>The digits a candidate mask stands for, in increasing order.\<close>

definition digits_of :: "mask \<Rightarrow> int list" where
  "digits_of m = map (\<lambda>k. int k + 1) (filter (bit m) [0..<9])"

lemma filter_upt_least:
  "k < n \<Longrightarrow> P k \<Longrightarrow> (\<forall>j<k. \<not> P j) \<Longrightarrow> filter P [0..<n] = k # filter (\<lambda>i. P i \<and> i \<noteq> k) [0..<n]"
proof -
  assume a: "k < n" "P k" "\<forall>j<k. \<not> P j"
  have split: "[0..<n] = [0..<k] @ k # [Suc k..<n]"
    using a(1) by (metis upt_conv_Cons le0 less_imp_le_nat upt_add_eq_append nat_le_iff_add plus_nat.add_0)
  have 1: "filter P [0..<k] = []" using a(3) by (auto simp: filter_empty_conv)
  have 2: "filter (\<lambda>i. P i \<and> i \<noteq> k) [0..<k] = []" using a(3) by (auto simp: filter_empty_conv)
  have 3: "filter (\<lambda>i. P i \<and> i \<noteq> k) [Suc k..<n] = filter P [Suc k..<n]"
    by (rule filter_cong) auto
  show ?thesis unfolding split using 1 2 3 a(2) by simp
qed

definition nine_bits :: "mask \<Rightarrow> bool" where
  "nine_bits m = (\<forall>n. bit m n \<longrightarrow> n < 9)"

lemma bit_1FF: "bit (0x1FF :: mask) n \<longleftrightarrow> n < 9"
proof -
  have eq: "(0x1FF :: mask) = mask 9" by (simp add: mask_eq_exp_minus_1)
  show ?thesis by (subst eq) (auto simp add: bit_mask_iff)
qed

lemma nine_bits_and: "nine_bits (x AND 0x1FF)"
  unfolding nine_bits_def bit_and_iff bit_1FF by simp

lemma digits_of_step:
  assumes "m \<noteq> 0" "nine_bits m"
  shows "digits_of m = (int (ctz (m AND - m)) + 1) # digits_of (m - (m AND - m))"
    and "push_bit (nat ((int (ctz (m AND - m)) + 1) - 1)) 1 = m AND - m"
    and "ctz (m AND - m) < 9" and "bit m (ctz (m AND - m))"
    and "nine_bits (m - (m AND - m))"
    and "m - (m AND - m) = m AND NOT (m AND - m)"
proof -
  define k where "k = ctz m"
  from ctz_least[OF assms(1)] have k: "k < 32" "bit m k" "\<forall>j<k. \<not> bit m j"
    by (auto simp: k_def)
  have lb: "m AND - m = push_bit k 1" using lowbit[OF assms(1)] by (simp add: k_def)
  have ck: "ctz (m AND - m) = k" unfolding lb using k(1) by (rule ctz_push_bit)
  have k9: "k < 9" using assms(2) k(2) by (auto simp: nine_bits_def)
  have sub: "m - (m AND - m) = m AND NOT (m AND - m)"
    unfolding lb using k(2) by (rule clear_lowbit)
  have bits: "bit (m AND NOT (push_bit k 1)) i \<longleftrightarrow> bit m i \<and> i \<noteq> k" for i
    by (auto simp: bit_simps dest: bit_imp_le_length)
  have "filter (bit (m AND NOT (push_bit k 1))) [0..<9] = filter (\<lambda>i. bit m i \<and> i \<noteq> k) [0..<9]"
    by (rule filter_cong) (simp_all only: bits)
  then have "digits_of m = (int k + 1) # digits_of (m AND NOT (push_bit k 1))"
    unfolding digits_of_def
    using filter_upt_least[of k 9 "bit m", OF k9 k(2) k(3)] by simp
  then show "digits_of m = (int (ctz (m AND - m)) + 1) # digits_of (m - (m AND - m))"
    unfolding sub unfolding ck unfolding lb .
  show "push_bit (nat ((int (ctz (m AND - m)) + 1) - 1)) 1 = m AND - m"
    unfolding ck by (simp add: lb)
  show "ctz (m AND - m) < 9" unfolding ck by (rule k9)
  show "bit m (ctz (m AND - m))" unfolding ck by (rule k(2))
  show "nine_bits (m - (m AND - m))" unfolding sub using assms(2)
    by (auto simp: nine_bits_def bit_and_iff)
  show "m - (m AND - m) = m AND NOT (m AND - m)" by (rule sub)
qed

lemma popcount_digits: "nine_bits m \<Longrightarrow> popcount m = length (digits_of m)"
proof -
  assume a: "nine_bits m"
  have split: "[0..<32] = [0..<9] @ [9..<32]"
    using upt_add_eq_append[of 0 9 23] by simp
  have "filter (bit m) [9..<32] = []" using a by (auto simp: filter_empty_conv nine_bits_def)
  then show ?thesis unfolding popcount_def digits_of_def split by simp
qed

lemma digits_of_0: "digits_of 0 = []" by (simp add: digits_of_def)

lemma digits_of_Nil_iff: "nine_bits m \<Longrightarrow> digits_of m = [] \<longleftrightarrow> m = 0"
  by (auto simp: digits_of_def filter_empty_conv nine_bits_def bit_eq_iff)

lemma length_digits_le: "length (digits_of m) \<le> 9"
  unfolding digits_of_def using length_filter_le[of "bit m" "[0..<9]"] by simp

section \<open>Boards, conflicts and solutions\<close>

text \<open>A board as the specification's data model has it: 9 rows of 9 cells, each 0..9.\<close>

definition wf_board :: "Board \<Rightarrow> bool" where
  "wf_board b = (length b = 9 \<and> list_all (\<lambda>row. length row = 9 \<and> list_all (\<lambda>v. 0 \<le> v \<and> v \<le> 9) row) b)"

definition blk :: "nat \<times> nat \<Rightarrow> nat" where
  "blk p = blockIndex (fst p) (snd p)"

definition peer :: "nat \<times> nat \<Rightarrow> nat \<times> nat \<Rightarrow> bool" where
  "peer p q = (fst p = fst q \<or> snd p = snd q \<or> blk p = blk q)"

text \<open>Two cells with the same nonzero value share a row, a column or a block.\<close>

definition conflict :: "Board \<Rightarrow> bool" where
  "conflict b = list_ex (\<lambda>p. list_ex (\<lambda>q. p \<noteq> q \<and> peer p q \<and> at b p \<noteq> 0 \<and> at b p = at b q) cells) cells"

lemma set_cells: "set cells = {p. fst p < 9 \<and> snd p < 9}"
  unfolding cells_def by (auto simp del: upt_Suc)

lemma distinct_cells: "distinct cells"
  unfolding cells_def
  by (rule distinct_concat) (auto simp: distinct_map inj_on_def simp del: upt_Suc)

lemma in_cells: "(r, c) \<in> set cells \<longleftrightarrow> r < 9 \<and> c < 9"
  by (simp add: set_cells)

lemma blk_less: "p \<in> set cells \<Longrightarrow> blk p < 9"
  by (simp add: set_cells blk_def blockIndex_less)

definition dims :: "Board \<Rightarrow> bool" where
  "dims b = (length b = 9 \<and> (\<forall>r<9. length (b ! r) = 9))"

lemma wf_board_dims: "wf_board b \<Longrightarrow> dims b"
  by (auto simp: wf_board_def dims_def list_all_length)

lemma wf_board_range: "wf_board b \<Longrightarrow> p \<in> set cells \<Longrightarrow> 0 \<le> at b p \<and> at b p \<le> 9"
  by (auto simp: wf_board_def set_cells at_def list_all_length)

lemma wf_board_iff: "wf_board b \<longleftrightarrow> dims b \<and> (\<forall>p\<in>set cells. 0 \<le> at b p \<and> at b p \<le> 9)"
  by (auto simp: wf_board_def dims_def set_cells at_def list_all_length)

lemma at_set_cell:
  "dims b \<Longrightarrow> r < 9 \<Longrightarrow> c < 9 \<Longrightarrow> p \<in> set cells \<Longrightarrow>
   at (set_cell b r c v) p = (if p = (r, c) then v else at b p)"
  by (cases p) (auto simp: at_def set_cell_def dims_def set_cells nth_list_update)

lemma dims_set_cell: "dims b \<Longrightarrow> dims (set_cell b r c v)"
  by (cases "r < length b") (auto simp: dims_def set_cell_def nth_list_update)

lemma set_cell_same: "set_cell b r c (at b (r, c)) = b"
  by (simp add: set_cell_def at_def)

lemma set_cell_twice: "set_cell (set_cell b r c v) r c w = set_cell b r c w"
  by (cases "r < length b") (simp_all add: set_cell_def list_update_beyond)

lemma board_eqI:
  assumes "dims a" "dims b" "\<forall>p\<in>set cells. at a p = at b p"
  shows "a = b"
proof (rule nth_equalityI)
  show "length a = length b" using assms by (simp add: dims_def)
  fix r assume "r < length a"
  then have r: "r < 9" using assms(1) by (simp add: dims_def)
  show "a ! r = b ! r"
  proof (rule nth_equalityI)
    show "length (a ! r) = length (b ! r)" using assms r by (simp add: dims_def)
    fix c assume "c < length (a ! r)"
    then have "c < 9" using assms(1) r by (simp add: dims_def)
    then show "a ! r ! c = b ! r ! c" using assms(3) r by (auto simp: set_cells at_def)
  qed
qed

lemma conflict_iff:
  "conflict b \<longleftrightarrow> (\<exists>p\<in>set cells. \<exists>q\<in>set cells. p \<noteq> q \<and> peer p q \<and> at b p \<noteq> 0 \<and> at b p = at b q)"
  by (simp add: conflict_def list_ex_iff)

text \<open>
  \<open>covers D b u ms\<close>: the nine masks \<open>ms\<close> of one kind of unit (\<open>u\<close> maps a cell to its
  row, its column or its block) hold exactly the bits \<open>v - 1\<close> of the values \<open>v\<close> of the cells
  of \<open>D\<close> in each unit.
\<close>
definition covers :: "(nat \<times> nat) set \<Rightarrow> Board \<Rightarrow> (nat \<times> nat \<Rightarrow> nat) \<Rightarrow> mask list \<Rightarrow> bool" where
  "covers D b u ms = (length ms = 9 \<and>
     (\<forall>i<9. \<forall>k. bit (ms ! i) k \<longleftrightarrow> (\<exists>p\<in>D. u p = i \<and> at b p = int k + 1)))"

lemma digit_bit: "1 \<le> v \<Longrightarrow> v \<le> 9 \<Longrightarrow> bit (shl1 (v - 1)) k \<longleftrightarrow> int k + 1 = v"
  by (auto simp: bit_simps shl1_def)

lemma covers_test:
  assumes "covers D b u ms" "i < 9" "1 \<le> v" "v \<le> 9"
  shows "ms ! i AND shl1 (v - 1) \<noteq> 0 \<longleftrightarrow> (\<exists>p\<in>D. u p = i \<and> at b p = v)"
proof -
  have "ms ! i AND shl1 (v - 1) \<noteq> 0 \<longleftrightarrow> bit (ms ! i) (nat (v - 1))"
  proof
    assume "ms ! i AND shl1 (v - 1) \<noteq> 0"
    then obtain n where "bit (ms ! i AND shl1 (v - 1)) n"
      by (auto simp: bit_eq_iff[where ?'a = mask])
    then have "bit (ms ! i) n" "int n + 1 = v"
      using assms(3,4) by (auto simp: bit_and_iff digit_bit)
    then show "bit (ms ! i) (nat (v - 1))" by auto
  next
    assume "bit (ms ! i) (nat (v - 1))"
    then have "bit (ms ! i AND shl1 (v - 1)) (nat (v - 1))"
      using assms(3,4) by (auto simp: bit_and_iff digit_bit)
    then show "ms ! i AND shl1 (v - 1) \<noteq> 0" by auto
  qed
  also have "\<dots> \<longleftrightarrow> (\<exists>p\<in>D. u p = i \<and> at b p = v)"
    using assms by (auto simp: covers_def)
  finally show ?thesis .
qed

lemma covers_add:
  assumes "covers D b u ms" "u p < 9" "at b p = v" "1 \<le> v" "v \<le> 9"
  shows "covers (insert p D) b u (ms[u p := ms ! u p OR shl1 (v - 1)])"
  using assms unfolding covers_def
  by (auto simp: nth_list_update bit_or_iff digit_bit)

lemma covers_skip:
  assumes "covers D b u ms" "at b p = 0"
  shows "covers (insert p D) b u ms"
  using assms unfolding covers_def by auto


definition masks_cover :: "(nat \<times> nat) set \<Rightarrow> Solver \<Rightarrow> bool" where
  "masks_cover D s = (covers D (board s) fst (rowMask s) \<and> covers D (board s) snd (colMask s)
     \<and> covers D (board s) blk (blockMask s))"

definition clash_in :: "(nat \<times> nat) set \<Rightarrow> Board \<Rightarrow> bool" where
  "clash_in D b = (\<exists>p\<in>D. \<exists>q\<in>D. p \<noteq> q \<and> peer p q \<and> at b p \<noteq> 0 \<and> at b p = at b q)"

lemma conflict_clash: "conflict b = clash_in (set cells) b"
  by (simp add: conflict_iff clash_in_def)

lemma clash_insert:
  "p \<notin> D \<Longrightarrow> clash_in (insert p D) b \<longleftrightarrow>
     clash_in D b \<or> (at b p \<noteq> 0 \<and> (\<exists>q\<in>D. peer p q \<and> at b q = at b p))"
proof -
  assume pD: "p \<notin> D"
  have sym: "peer x y = peer y x" for x y by (auto simp: peer_def)
  show ?thesis
  proof
    assume "clash_in (insert p D) b"
    then obtain x y where xy: "x \<in> insert p D" "y \<in> insert p D" "x \<noteq> y" "peer x y"
      "at b x \<noteq> 0" "at b x = at b y" unfolding clash_in_def by blast
    show "clash_in D b \<or> (at b p \<noteq> 0 \<and> (\<exists>q\<in>D. peer p q \<and> at b q = at b p))"
    proof (cases "x = p")
      case True
      then show ?thesis using xy by auto
    next
      case False
      then have xD: "x \<in> D" using xy(1) by simp
      show ?thesis
      proof (cases "y = p")
        case True
        then show ?thesis using xy xD sym[of x y] by auto
      next
        case False
        then show ?thesis using xy xD unfolding clash_in_def by blast
      qed
    qed
  next
    assume "clash_in D b \<or> (at b p \<noteq> 0 \<and> (\<exists>q\<in>D. peer p q \<and> at b q = at b p))"
    then show "clash_in (insert p D) b"
    proof
      assume "clash_in D b" then show ?thesis unfolding clash_in_def by blast
    next
      assume "at b p \<noteq> 0 \<and> (\<exists>q\<in>D. peer p q \<and> at b q = at b p)"
      then obtain q where "q \<in> D" "peer p q" "at b q = at b p" "at b p \<noteq> 0" by blast
      then show ?thesis unfolding clash_in_def using pD
        by (intro bexI[of _ p] bexI[of _ q]) auto
    qed
  qed
qed

lemma load_scan_correct:
  assumes "wf_board (board s)" "masks_cover D s" "D \<inter> set ps = {}" "D \<union> set ps \<subseteq> set cells"
    "distinct ps" "\<not> clash_in D (board s)"
  shows "board (snd (load_scan ps s)) = board s \<and> empties (snd (load_scan ps s)) = empties s \<and>
     (fst (load_scan ps s) \<longleftrightarrow> \<not> clash_in (D \<union> set ps) (board s)) \<and>
     (fst (load_scan ps s) \<longrightarrow> masks_cover (D \<union> set ps) (snd (load_scan ps s)))"
  using assms
proof (induction ps arbitrary: s D)
  case Nil
  then show ?case by simp
next
  case (Cons p ps)
  let ?b = "board s"
  let ?v = "at ?b p"
  have pc: "p \<in> set cells" and pD: "p \<notin> D" using Cons.prems by auto
  have ur: "fst p < 9" and uc: "snd p < 9" and ub: "blk p < 9"
    using pc blk_less by (auto simp: set_cells)
  have v_def: "board s ! fst p ! snd p = ?v" by (simp add: at_def)
  have un: "D \<union> set (p # ps) = insert p D \<union> set ps" by auto
  have pre: "insert p D \<inter> set ps = {}" "insert p D \<union> set ps \<subseteq> set cells" "distinct ps"
    using Cons.prems by auto
  show ?case
  proof (cases "?v = 0")
    case True
    have mc: "masks_cover (insert p D) s"
      using Cons.prems(2) True by (simp add: masks_cover_def covers_skip)
    have nc: "\<not> clash_in (insert p D) (board s)"
      using Cons.prems(6) True pD by (simp add: clash_insert)
    from Cons.IH[OF Cons.prems(1) mc pre nc] True show ?thesis
      unfolding un by (simp add: v_def Let_def)
  next
    case False
    then have v: "1 \<le> ?v" "?v \<le> 9" using wf_board_range[OF Cons.prems(1) pc] by auto
    from Cons.prems(2) have cv: "covers D ?b fst (rowMask s)" "covers D ?b snd (colMask s)"
      "covers D ?b blk (blockMask s)" by (simp_all add: masks_cover_def)
    note t1 = covers_test[OF cv(1) ur v] 
    note t2 = covers_test[OF cv(2) uc v]
    note t3 = covers_test[OF cv(3) ub v]
    show ?thesis
    proof (cases "\<exists>q\<in>D. peer p q \<and> at ?b q = ?v")
      case True
      then obtain q where "q \<in> D" "peer p q" "at ?b q = ?v" by blast
      then have "clash_in (D \<union> set (p # ps)) ?b"
        unfolding clash_in_def using False pD
        by (intro bexI[of _ p] bexI[of _ q]) auto
      moreover have "\<not> fst (load_scan (p # ps) s)"
        using True False t1 t2 t3 unfolding peer_def
        by (auto simp: v_def Let_def blk_def)
      moreover have "snd (load_scan (p # ps) s) = s"
        using True False t1 t2 t3 unfolding peer_def
        by (auto simp: v_def Let_def blk_def)
      ultimately show ?thesis by simp
    next
      case nopeer: False
      define s' where "s' = s\<lparr>rowMask := (rowMask s)[fst p := rowMask s ! fst p OR shl1 (?v - 1)],
              colMask := (colMask s)[snd p := colMask s ! snd p OR shl1 (?v - 1)],
              blockMask := (blockMask s)[blk p := blockMask s ! blk p OR shl1 (?v - 1)]\<rparr>"
      have ls: "load_scan (p # ps) s = load_scan ps s'"
        using nopeer False t1 t2 t3 unfolding peer_def s'_def
        by (auto simp: v_def Let_def blk_def)
      have bs: "board s' = board s" "empties s' = empties s" by (simp_all add: s'_def)
      have mc: "masks_cover (insert p D) s'"
        unfolding masks_cover_def bs unfolding s'_def
        using covers_add[OF cv(1) ur refl v] covers_add[OF cv(2) uc refl v]
          covers_add[OF cv(3) ub refl v] by simp
      have nc: "\<not> clash_in (insert p D) (board s')"
        using Cons.prems(6) nopeer pD by (simp add: clash_insert bs)
      have wf: "wf_board (board s')" using Cons.prems(1) by (simp add: bs)
      from Cons.IH[OF wf mc pre nc] show ?thesis
        unfolding un ls bs by simp
    qed
  qed
qed


lemma covers_empty: "covers {} b u (replicate 9 0)"
  by (simp add: covers_def)

lemma load_scan_cells:
  assumes "wf_board b"
  shows "board (snd (load_scan cells (reset\<lparr>board := b\<rparr>))) = b"
    and "fst (load_scan cells (reset\<lparr>board := b\<rparr>)) \<longleftrightarrow> \<not> conflict b"
    and "fst (load_scan cells (reset\<lparr>board := b\<rparr>)) \<Longrightarrow>
           masks_cover (set cells) (snd (load_scan cells (reset\<lparr>board := b\<rparr>)))"
proof -
  let ?s = "reset\<lparr>board := b\<rparr>"
  have 1: "wf_board (board ?s)" using assms by simp
  have 2: "masks_cover {} ?s" by (simp add: masks_cover_def reset_def covers_empty)
  have 3: "\<not> clash_in {} (board ?s)" by (simp add: clash_in_def)
  from load_scan_correct[OF 1 2 _ _ distinct_cells 3]
  show "board (snd (load_scan cells ?s)) = b"
    and "fst (load_scan cells ?s) \<longleftrightarrow> \<not> conflict b"
    and "fst (load_scan cells ?s) \<Longrightarrow> masks_cover (set cells) (snd (load_scan cells ?s))"
    by (simp_all add: conflict_clash)
qed

lemma loadBoard_ok: "wf_board b \<Longrightarrow> fst (loadBoard b) \<longleftrightarrow> \<not> conflict b"
  using load_scan_cells(2)[of b]
  by (cases "load_scan cells (reset\<lparr>board := b\<rparr>)") (auto simp: loadBoard_def)

lemma loadBoard_state:
  assumes "wf_board b" "loadBoard b = (True, s)"
  shows "board s = b" "masks_cover (set cells) s" "empties s = filter (\<lambda>p. at b p = 0) cells"
proof -
  obtain ok t where t: "load_scan cells (reset\<lparr>board := b\<rparr>) = (ok, t)" by force
  with assms(2) have ok: "ok" and s: "s = t\<lparr>empties := filter (\<lambda>p. board t ! fst p ! snd p = 0) cells\<rparr>"
    by (auto simp: loadBoard_def split: if_splits bool.splits)
  from load_scan_cells[OF assms(1)] t ok have bt: "board t = b" and mc: "masks_cover (set cells) t"
    by simp_all
  show "board s = b" using bt s by simp
  show "masks_cover (set cells) s" using mc s by (simp add: masks_cover_def)
  show "empties s = filter (\<lambda>p. at b p = 0) cells" using bt s by (simp add: at_def)
qed

definition dup5_board :: Board where
  "dup5_board =
    [[5,5,0,0,0,0,0,0,0],
     [0,0,0,0,0,0,0,0,0],
     [0,0,0,0,0,0,0,0,0],
     [0,0,0,0,0,0,0,0,0],
     [0,0,0,0,0,0,0,0,0],
     [0,0,0,0,0,0,0,0,0],
     [0,0,0,0,0,0,0,0,0],
     [0,0,0,0,0,0,0,0,0],
     [0,0,0,0,0,0,0,0,0]]"

text \<open>
  Claim C5.  On a board of the data model, \<open>loadBoard\<close> returns false exactly when two
  different cells with the same nonzero value share a row, a column or a 3x3 block; in
  particular it fails on every board with two 5s in row 0, and it succeeds on every
  board without such a pair.
\<close>

theorem loadBoard_conflict:
  assumes "wf_board b"
  shows "(fst (loadBoard b) \<longleftrightarrow> \<not> conflict b) \<and>
         (\<forall>c1 c2. c1 < 9 \<and> c2 < 9 \<and> c1 \<noteq> c2 \<and> at b (0, c1) = 5 \<and> at b (0, c2) = 5
            \<longrightarrow> \<not> fst (loadBoard b))"
proof (intro conjI allI impI)
  show ok: "fst (loadBoard b) \<longleftrightarrow> \<not> conflict b" using assms by (rule loadBoard_ok)
  fix c1 c2 :: nat
  assume a: "c1 < 9 \<and> c2 < 9 \<and> c1 \<noteq> c2 \<and> at b (0, c1) = 5 \<and> at b (0, c2) = 5"
  then have "(0, c1) \<in> set cells" "(0, c2) \<in> set cells" "(0, c1) \<noteq> (0, c2)"
    "peer (0, c1) (0, c2)" "at b (0, c1) \<noteq> 0" "at b (0, c1) = at b (0, c2)"
    by (simp_all add: set_cells peer_def)
  then have "conflict b" unfolding conflict_iff by blast
  then show "\<not> fst (loadBoard b)" using ok by simp
qed

theorem loadBoard_conflict_witness:
  "wf_board dup5_board \<and> conflict dup5_board \<and> \<not> fst (loadBoard dup5_board)"
proof -
  have wf: "wf_board dup5_board" by (simp add: wf_board_def dup5_board_def)
  have "at dup5_board (0, 0) = 5" "at dup5_board (0, 1) = 5"
    by (simp_all add: at_def dup5_board_def)
  then have "(0::nat) < 9 \<and> (1::nat) < 9 \<and> (0::nat) \<noteq> 1 \<and>
      at dup5_board (0, 0) = 5 \<and> at dup5_board (0, 1) = 5" by simp
  with loadBoard_conflict[OF wf] have "\<not> fst (loadBoard dup5_board)" by blast
  with loadBoard_conflict[OF wf] wf show ?thesis by simp
qed

section \<open>The backtracking search\<close>

text \<open>
  The minimum-remaining-values scan at the head of the \<^verbatim>\<open>dfs\<close> lambda of
  \<^verbatim>\<open>Solver::solve\<close>, over the rest of the empties list from index \<open>i\<close>.
  \<open>None\<close> is the \<^verbatim>\<open>return false\<close> of a dead end; otherwise the result is
  (\<^verbatim>\<open>bestIdx\<close>, \<^verbatim>\<open>bestCount\<close>, \<^verbatim>\<open>bestMask\<close>) when the loop ends or breaks.
\<close>

fun mrv_scan :: "Solver \<Rightarrow> (nat \<times> nat) list \<Rightarrow> int \<Rightarrow> int \<times> nat \<times> mask \<Rightarrow> (int \<times> nat \<times> mask) option" where
  "mrv_scan s [] i best = Some best"
| "mrv_scan s (e # es) i best =
    (let r = fst e; c = snd e in
     if board s ! r ! c \<noteq> 0 then mrv_scan s es (i + 1) best
     else
       let mask = candidatesMask s r c in
       if mask = 0 then None
       else
         let cnt = popcount mask in
         if cnt < fst (snd best)
         then (if cnt = 1 then Some (i, cnt, mask) else mrv_scan s es (i + 1) (i, cnt, mask))
         else mrv_scan s es (i + 1) best)"

text \<open>Placing a digit and undoing the placement, as the body of the \<^verbatim>\<open>while\<close> loop does.\<close>

definition place :: "nat \<Rightarrow> nat \<Rightarrow> int \<Rightarrow> Solver \<Rightarrow> Solver" where
  "place r c d s =
    (let bit = shl1 (d - 1) in
     s\<lparr>board := set_cell (board s) r c d,
       rowMask := (rowMask s)[r := rowMask s ! r OR bit],
       colMask := (colMask s)[c := colMask s ! c OR bit],
       blockMask := (blockMask s)[blockIndex r c := blockMask s ! blockIndex r c OR bit]\<rparr>)"

definition unplace :: "nat \<Rightarrow> nat \<Rightarrow> int \<Rightarrow> Solver \<Rightarrow> Solver" where
  "unplace r c d s =
    (let bit = shl1 (d - 1) in
     s\<lparr>board := set_cell (board s) r c 0,
       rowMask := (rowMask s)[r := rowMask s ! r AND NOT bit],
       colMask := (colMask s)[c := colMask s ! c AND NOT bit],
       blockMask := (blockMask s)[blockIndex r c := blockMask s ! blockIndex r c AND NOT bit]\<rparr>)"

text \<open>
  What the \<^verbatim>\<open>dfs\<close> lambda captures by reference: the solver itself, \<^verbatim>\<open>outCount\<close>,
  and the pair \<^verbatim>\<open>saved\<close>, \<^verbatim>\<open>savedBoard\<close> (\<open>None\<close> while \<^verbatim>\<open>saved\<close> is false: the
  board is uninitialised then).
\<close>

record Search =
  sv :: Solver
  outCount :: int
  saved :: "Board option"

text \<open>
  The two recursive program points of \<^verbatim>\<open>dfs\<close>: its entry, and the head of the
  \<^verbatim>\<open>while (m && outCount < countLimit)\<close> loop at the chosen cell with the digits
  still to try.
\<close>

datatype frame = Dfs | Try nat nat mask

partial_function (option) run :: "int \<Rightarrow> frame \<Rightarrow> Search \<Rightarrow> (bool \<times> Search) option" where
  "run countLimit f st =
    (case f of
       Dfs \<Rightarrow>
         if outCount st \<ge> countLimit then Some (True, st)
         else
           (case mrv_scan (sv st) (empties (sv st)) 0 (- 1, 10, 0) of
              None \<Rightarrow> Some (False, st)
            | Some (bestIdx, bestCount, bestMask) \<Rightarrow>
                if bestIdx = - 1 then
                  let st1 = st\<lparr>outCount := outCount st + 1\<rparr>;
                      st2 = (if saved st1 = None then st1\<lparr>saved := Some (board (sv st1))\<rparr> else st1)
                  in Some (outCount st2 \<ge> countLimit, st2)
                else
                  let r = fst (empties (sv st) ! nat bestIdx);
                      c = snd (empties (sv st) ! nat bestIdx)
                  in run countLimit (Try r c bestMask) st)
     | Try r c m \<Rightarrow>
         if m \<noteq> 0 \<and> outCount st < countLimit then
           let lowbit = m AND - m;
               d = int (ctz lowbit) + 1;
               m' = m - lowbit;
               st1 = st\<lparr>sv := place r c d (sv st)\<rparr>
           in Option.bind (run countLimit Dfs st1) (\<lambda>(stop, st2).
                let st3 = st2\<lparr>sv := unplace r c d (sv st2)\<rparr>
                in if stop then Some (True, st3) else run countLimit (Try r c m') st3)
         else Some (False, st))"

declare run.simps [code]

text \<open>\<^verbatim>\<open>Solver::solve\<close>: the result is the return value, \<^verbatim>\<open>outCount\<close> and the solver.\<close>

definition solve :: "int \<Rightarrow> Solver \<Rightarrow> (bool \<times> int \<times> Solver) option" where
  "solve countLimit s =
    (case run countLimit Dfs \<lparr>sv = s, outCount = 0, saved = None\<rparr> of
       None \<Rightarrow> None
     | Some (stop, st) \<Rightarrow>
         Some (outCount st \<ge> 1, outCount st,
               (case saved st of Some savedBoard \<Rightarrow> (sv st)\<lparr>board := savedBoard\<rparr> | None \<Rightarrow> sv st)))"

definition solveOne :: "Solver \<Rightarrow> (bool \<times> Solver) option" where
  "solveOne s = (case solve 1 s of None \<Rightarrow> None | Some (ok, cnt, s') \<Rightarrow> Some (ok, s'))"

definition countSolutions :: "int \<Rightarrow> Solver \<Rightarrow> (int \<times> Solver) option" where
  "countSolutions limit s = (case solve limit s of None \<Rightarrow> None | Some (ok, cnt, s') \<Rightarrow> Some (cnt, s'))"

section \<open>Solutions and the search order of the specification\<close>

definition complete :: "Board \<Rightarrow> bool" where
  "complete b = list_all (\<lambda>p. at b p \<noteq> 0) cells"

text \<open>A solved board: every cell holds a digit 1..9 and no digit repeats in a row, a
  column or a block.\<close>

definition solved :: "Board \<Rightarrow> bool" where
  "solved b = (wf_board b \<and> complete b \<and> \<not> conflict b)"

text \<open>\<open>extends b s\<close>: the board \<open>s\<close> keeps every clue of \<open>b\<close>.\<close>

definition extends :: "Board \<Rightarrow> Board \<Rightarrow> bool" where
  "extends b s = list_all (\<lambda>p. at b p = 0 \<or> at s p = at b p) cells"

definition solution_of :: "Board \<Rightarrow> Board \<Rightarrow> bool" where
  "solution_of b s = (solved s \<and> extends b s)"

text \<open>
  The candidates of a cell, from the board alone: the digits 1..9 not yet used in its
  row, its column or its block, in increasing order.
\<close>

definition used_in :: "Board \<Rightarrow> nat \<times> nat \<Rightarrow> int \<Rightarrow> bool" where
  "used_in b p d = list_ex (\<lambda>q. peer p q \<and> at b q = d) cells"

definition candidates :: "Board \<Rightarrow> nat \<times> nat \<Rightarrow> int list" where
  "candidates b p = filter (\<lambda>d. \<not> used_in b p d) [1..9]"

text \<open>
  Step 2 of the specification's search: scan the cells that are still empty; a cell
  without candidates is a dead end; otherwise keep the first cell with the fewest
  candidates seen so far, and stop at a cell with exactly one candidate.
\<close>

datatype pick = DeadEnd | Complete | Pick "nat \<times> nat"

fun spec_pick :: "Board \<Rightarrow> (nat \<times> nat) list \<Rightarrow> ((nat \<times> nat) \<times> nat) option \<Rightarrow> pick" where
  "spec_pick b [] best = (case best of None \<Rightarrow> Complete | Some (p, n) \<Rightarrow> Pick p)"
| "spec_pick b (p # ps) best =
    (if at b p \<noteq> 0 then spec_pick b ps best
     else
       let n = length (candidates b p) in
       if n = 0 then DeadEnd
       else if (case best of None \<Rightarrow> True | Some (q, m) \<Rightarrow> n < m)
       then (if n = 1 then Pick p else spec_pick b ps (Some (p, n)))
       else spec_pick b ps best)"

lemma spec_pick_DeadEnd:
  "spec_pick b ps best = DeadEnd \<Longrightarrow> \<exists>p\<in>set ps. at b p = 0 \<and> candidates b p = []"
  by (induction ps arbitrary: best) (auto simp: Let_def split: if_splits option.splits)

lemma spec_pick_Complete:
  "spec_pick b ps best = Complete \<Longrightarrow> best = None \<and> (\<forall>p\<in>set ps. at b p \<noteq> 0)"
  by (induction ps arbitrary: best) (auto simp: Let_def split: if_splits option.splits)

lemma spec_pick_Pick:
  "spec_pick b ps best = Pick p \<Longrightarrow> (p \<in> set ps \<and> at b p = 0) \<or> (\<exists>n. best = Some (p, n))"
  by (induction ps arbitrary: best) (fastforce simp: Let_def split: if_splits option.splits)+

definition zeros :: "Board \<Rightarrow> nat" where
  "zeros b = length (filter (\<lambda>p. at b p = 0) cells)"

lemma zeros_set_cell:
  assumes "dims b" "p \<in> set cells" "at b p = 0" "d \<noteq> 0"
  shows "zeros (set_cell b (fst p) (snd p) d) < zeros b"
proof -
  let ?b' = "set_cell b (fst p) (snd p) d"
  have rc: "fst p < 9" "snd p < 9" using assms(2) by (auto simp: set_cells)
  have at': "at ?b' q = (if q = p then d else at b q)" if "q \<in> set cells" for q
    using at_set_cell[OF assms(1) rc that] by simp
  have "filter (\<lambda>q. at ?b' q = 0) cells = filter (\<lambda>q. q \<noteq> p) (filter (\<lambda>q. at b q = 0) cells)"
    unfolding filter_filter by (rule filter_cong) (auto simp: at' assms(4))
  moreover have "p \<in> set (filter (\<lambda>q. at b q = 0) cells)" using assms by simp
  ultimately show ?thesis unfolding zeros_def
    by (metis (mono_tags, lifting) length_filter_less)
qed

lemma candidates_range: "d \<in> set (candidates b p) \<Longrightarrow> 1 \<le> d \<and> d \<le> 9"
  by (auto simp: candidates_def)

text \<open>
  Steps 3 and 4: a board without an empty cell is a solution; otherwise the candidate
  digits of the chosen cell are tried in increasing order.  The list holds the
  solutions in the order in which this search reaches them.
\<close>

function spec_search :: "Board \<Rightarrow> Board list" where
  "spec_search b =
    (if \<not> dims b then []
     else
       (case spec_pick b cells None of
          DeadEnd \<Rightarrow> []
        | Complete \<Rightarrow> [b]
        | Pick p \<Rightarrow> concat (map (\<lambda>d. spec_search (set_cell b (fst p) (snd p) d)) (candidates b p))))"
  by pat_completeness auto
termination
proof (relation "measure zeros")
  show "wf (measure zeros)" by simp
next
  fix b p d
  assume a: "\<not> \<not> dims b" "spec_pick b cells None = Pick p" "d \<in> set (candidates b p)"
  from spec_pick_Pick[OF a(2)] have "p \<in> set cells" "at b p = 0" by auto
  moreover have "d \<noteq> 0" using candidates_range[OF a(3)] by simp
  ultimately show "(set_cell b (fst p) (snd p) d, b) \<in> measure zeros"
    using a(1) by (simp add: zeros_set_cell)
qed

declare spec_search.simps [simp del]

lemma used_in_iff: "used_in b p d \<longleftrightarrow> (\<exists>q\<in>set cells. peer p q \<and> at b q = d)"
  by (simp add: used_in_def list_ex_iff)

lemma in_candidates: "d \<in> set (candidates b p) \<longleftrightarrow> 1 \<le> d \<and> d \<le> 9 \<and> \<not> used_in b p d"
  by (auto simp: candidates_def)

lemma distinct_candidates: "distinct (candidates b p)"
  by (simp add: candidates_def)

lemma peer_sym: "peer p q = peer q p"
  by (auto simp: peer_def)

lemma extends_iff: "extends b s \<longleftrightarrow> (\<forall>p\<in>set cells. at b p \<noteq> 0 \<longrightarrow> at s p = at b p)"
  by (auto simp: extends_def list_all_iff)

lemma complete_iff: "complete b \<longleftrightarrow> (\<forall>p\<in>set cells. at b p \<noteq> 0)"
  by (simp add: complete_def list_all_iff)

lemma solution_candidate:
  assumes "solution_of b s" "p \<in> set cells" "at b p = 0"
  shows "at s p \<in> set (candidates b p)"
proof -
  from assms(1) have wf: "wf_board s" and co: "complete s" and nc: "\<not> conflict s"
    and ex: "extends b s" by (simp_all add: solution_of_def solved_def)
  have rng: "1 \<le> at s p \<and> at s p \<le> 9"
    using wf_board_range[OF wf assms(2)] co assms(2) by (force simp: complete_iff)
  have "\<not> used_in b p (at s p)"
  proof
    assume "used_in b p (at s p)"
    then obtain q where q: "q \<in> set cells" "peer p q" "at b q = at s p"
      by (auto simp: used_in_iff)
    then have "at b q \<noteq> 0" using rng by simp
    then have "at s q = at s p" using ex q by (simp add: extends_iff)
    moreover have "q \<noteq> p" using \<open>at b q \<noteq> 0\<close> assms(3) by auto
    ultimately have "conflict s" unfolding conflict_iff using q assms(2) rng
      by (intro bexI[of _ p] bexI[of _ q]) auto
    then show False using nc by simp
  qed
  then show ?thesis using rng by (simp add: in_candidates)
qed

lemma at_place:
  assumes "dims b" "p \<in> set cells" "q \<in> set cells"
  shows "at (set_cell b (fst p) (snd p) d) q = (if q = p then d else at b q)"
  using at_set_cell[OF assms(1) _ _ assms(3), of "fst p" "snd p" d] assms(2)
  by (simp add: set_cells)

lemma wf_board_set_cell:
  assumes "wf_board b" "p \<in> set cells" "0 \<le> d" "d \<le> 9"
  shows "wf_board (set_cell b (fst p) (snd p) d)"
  unfolding wf_board_iff
  using assms dims_set_cell[of b] at_place[OF wf_board_dims[OF assms(1)] assms(2)]
  by (auto simp: wf_board_iff)

lemma place_ok:
  assumes "wf_board b" "\<not> conflict b" "p \<in> set cells" "d \<in> set (candidates b p)"
  shows "wf_board (set_cell b (fst p) (snd p) d)" "\<not> conflict (set_cell b (fst p) (snd p) d)"
proof -
  let ?b' = "set_cell b (fst p) (snd p) d"
  have d: "1 \<le> d" "d \<le> 9" "\<not> used_in b p d" using assms(4) by (simp_all add: in_candidates)
  show "wf_board ?b'" using wf_board_set_cell[OF assms(1,3)] d by simp
  note at' = at_place[OF wf_board_dims[OF assms(1)] assms(3)]
  show "\<not> conflict ?b'"
  proof
    assume "conflict ?b'"
    then obtain x y where xy: "x \<in> set cells" "y \<in> set cells" "x \<noteq> y" "peer x y"
      "at ?b' x \<noteq> 0" "at ?b' x = at ?b' y" unfolding conflict_iff by blast
    show False
    proof (cases "x = p")
      case True
      then have "at b y = d" using xy at' by auto
      then have "used_in b p d" using xy True by (auto simp: used_in_iff)
      then show False using d by simp
    next
      case False
      show False
      proof (cases "y = p")
        case True
        then have "at b x = d" using xy at' False by auto
        then have "used_in b p d" using xy True peer_sym[of x y] by (auto simp: used_in_iff)
        then show False using d by simp
      next
        case yp: False
        then have "at b x \<noteq> 0" "at b x = at b y" using xy False at' by auto
        then have "conflict b" unfolding conflict_iff using xy(1-4)
          by (intro bexI[of _ x] bexI[of _ y]) auto
        then show False using assms(2) by simp
      qed
    qed
  qed
qed

lemma solution_of_place:
  assumes "wf_board b" "p \<in> set cells" "at b p = 0" "d \<noteq> 0"
  shows "solution_of (set_cell b (fst p) (snd p) d) s \<longleftrightarrow> solution_of b s \<and> at s p = d"
  unfolding solution_of_def extends_iff
  using at_place[OF wf_board_dims[OF assms(1)] assms(2)] assms(2,3,4)
  by auto

lemma solutions_split:
  assumes "wf_board b" "p \<in> set cells" "at b p = 0"
  shows "solution_of b s \<longleftrightarrow> (\<exists>d\<in>set (candidates b p). solution_of (set_cell b (fst p) (snd p) d) s)"
proof
  assume s: "solution_of b s"
  from solution_candidate[OF s assms(2,3)] have c: "at s p \<in> set (candidates b p)" .
  then have "at s p \<noteq> 0" by (auto simp: in_candidates)
  with s c show "\<exists>d\<in>set (candidates b p). solution_of (set_cell b (fst p) (snd p) d) s"
    using solution_of_place[OF assms] by blast
next
  assume "\<exists>d\<in>set (candidates b p). solution_of (set_cell b (fst p) (snd p) d) s"
  then obtain d where d: "d \<in> set (candidates b p)" "solution_of (set_cell b (fst p) (snd p) d) s"
    by blast
  then have "d \<noteq> 0" by (auto simp: in_candidates)
  then show "solution_of b s" using solution_of_place[OF assms] d by blast
qed

lemma complete_solution:
  assumes "wf_board b" "\<not> conflict b" "\<forall>p\<in>set cells. at b p \<noteq> 0"
  shows "solution_of b s \<longleftrightarrow> s = b"
proof
  assume s: "solution_of b s"
  then have "dims s" by (simp add: solution_of_def solved_def wf_board_dims)
  moreover have "\<forall>p\<in>set cells. at s p = at b p"
    using s assms(3) by (simp add: solution_of_def extends_iff)
  ultimately show "s = b" using wf_board_dims[OF assms(1)] by (intro board_eqI) auto
next
  assume "s = b"
  then show "solution_of b s" using assms
    by (simp add: solution_of_def solved_def complete_iff extends_iff)
qed

lemma distinct_concat_map:
  assumes "distinct ds" "\<And>d. d \<in> set ds \<Longrightarrow> distinct (f d)"
    "\<And>d e. d \<in> set ds \<Longrightarrow> e \<in> set ds \<Longrightarrow> d \<noteq> e \<Longrightarrow> set (f d) \<inter> set (f e) = {}"
  shows "distinct (concat (map f ds))"
  using assms
proof (induction ds)
  case Nil
  then show ?case by simp
next
  case (Cons a ds)
  have "distinct (concat (map f ds))" using Cons by auto
  moreover have "set (f a) \<inter> set (concat (map f ds)) = {}"
  proof -
    have "set (f a) \<inter> set (f e) = {}" if "e \<in> set ds" for e
      using Cons.prems(1) Cons.prems(3)[of a e] that by auto
    then show ?thesis by auto
  qed
  ultimately show ?case using Cons.prems(2) by simp
qed

lemma spec_search_sound_complete:
  "wf_board b \<Longrightarrow> \<not> conflict b \<Longrightarrow>
     set (spec_search b) = {s. solution_of b s} \<and> distinct (spec_search b)"
proof (induction b rule: spec_search.induct)
  case (1 b)
  have dm: "dims b" using "1.prems"(1) by (rule wf_board_dims)
  show ?case
  proof (cases "spec_pick b cells None")
    case DeadEnd
    from spec_pick_DeadEnd[OF this] obtain p where p: "p \<in> set cells" "at b p = 0"
      "candidates b p = []" by blast
    have "\<not> solution_of b s" for s
      using solution_candidate[of b s p] p by auto
    then show ?thesis using DeadEnd dm by (simp add: spec_search.simps)
  next
    case Complete
    from spec_pick_Complete[OF this] have "\<forall>p\<in>set cells. at b p \<noteq> 0" by simp
    from complete_solution[OF "1.prems" this] show ?thesis
      using Complete dm by (simp add: spec_search.simps)
  next
    case (Pick p)
    from spec_pick_Pick[OF this] have p: "p \<in> set cells" "at b p = 0" by auto
    let ?f = "\<lambda>d. spec_search (set_cell b (fst p) (snd p) d)"
    have ss: "spec_search b = concat (map ?f (candidates b p))"
      using Pick dm by (simp add: spec_search.simps)
    have ih: "set (?f d) = {s. solution_of (set_cell b (fst p) (snd p) d) s} \<and> distinct (?f d)"
      if "d \<in> set (candidates b p)" for d
      using "1.IH"[OF _ Pick that] dm place_ok[OF "1.prems" p(1) that] by simp
    have "set (spec_search b) = {s. solution_of b s}"
      unfolding ss using ih solutions_split[OF "1.prems"(1) p] by auto
    moreover have "distinct (spec_search b)"
      unfolding ss
    proof (rule distinct_concat_map)
      show "distinct (candidates b p)" by (rule distinct_candidates)
      show "distinct (?f d)" if "d \<in> set (candidates b p)" for d using ih[OF that] by simp
      show "set (?f d) \<inter> set (?f e) = {}"
        if "d \<in> set (candidates b p)" "e \<in> set (candidates b p)" "d \<noteq> e" for d e
      proof -
        have "d \<noteq> 0" "e \<noteq> 0" using that by (auto simp: in_candidates)
        then show ?thesis
          using ih[OF that(1)] ih[OF that(2)] that(3)
            solution_of_place[OF "1.prems"(1) p] by auto
      qed
    qed
    ultimately show ?thesis by simp
  qed
qed

section \<open>The search refines the specification's search\<close>

lemma upto_1_9: "[1..9] = map (\<lambda>k. int k + 1) [0..<9]"
  by (simp add: upto.simps upt_rec)

lemma bit_candidatesMask:
  "bit (candidatesMask s r c) k \<longleftrightarrow>
     k < 9 \<and> \<not> bit (rowMask s ! r) k \<and> \<not> bit (colMask s ! c) k \<and> \<not> bit (blockMask s ! blockIndex r c) k"
  unfolding candidatesMask_def Let_def bit_and_iff bit_1FF bit_not_iff bit_or_iff
  by auto

lemma nine_bits_candidatesMask: "nine_bits (candidatesMask s r c)"
  by (simp add: nine_bits_def bit_candidatesMask)

lemma candidates_mask:
  assumes "masks_cover (set cells) s" "p \<in> set cells"
  shows "digits_of (candidatesMask s (fst p) (snd p)) = candidates (board s) p"
proof -
  let ?b = "board s"
  have rc: "fst p < 9" "snd p < 9" "blockIndex (fst p) (snd p) < 9"
    using assms(2) blockIndex_less by (auto simp: set_cells)
  from assms(1) have cv: "covers (set cells) ?b fst (rowMask s)"
    "covers (set cells) ?b snd (colMask s)" "covers (set cells) ?b blk (blockMask s)"
    by (simp_all add: masks_cover_def)
  have "bit (candidatesMask s (fst p) (snd p)) k \<longleftrightarrow> \<not> used_in ?b p (int k + 1)"
    if "k \<in> set [0..<9]" for k
  proof -
    have k: "k < 9" using that by simp
    have r: "bit (rowMask s ! fst p) k \<longleftrightarrow> (\<exists>q\<in>set cells. fst q = fst p \<and> at ?b q = int k + 1)"
      using cv(1) rc by (simp add: covers_def)
    have c: "bit (colMask s ! snd p) k \<longleftrightarrow> (\<exists>q\<in>set cells. snd q = snd p \<and> at ?b q = int k + 1)"
      using cv(2) rc by (simp add: covers_def)
    have bl: "bit (blockMask s ! blockIndex (fst p) (snd p)) k \<longleftrightarrow>
        (\<exists>q\<in>set cells. blk q = blk p \<and> at ?b q = int k + 1)"
      using cv(3) rc by (simp add: covers_def blk_def)
    have "used_in ?b p (int k + 1) \<longleftrightarrow>
       bit (rowMask s ! fst p) k \<or> bit (colMask s ! snd p) k \<or> bit (blockMask s ! blockIndex (fst p) (snd p)) k"
      unfolding r c bl used_in_iff peer_def by (auto simp: eq_commute)
    then show ?thesis using k by (simp add: bit_candidatesMask)
  qed
  then have "filter (bit (candidatesMask s (fst p) (snd p))) [0..<9]
      = filter ((\<lambda>d. \<not> used_in ?b p d) \<circ> (\<lambda>k. int k + 1)) [0..<9]"
    by (intro filter_cong) (auto simp del: upt_Suc)
  then show ?thesis
    unfolding digits_of_def candidates_def upto_1_9 filter_map by simp
qed

lemma spec_pick_filter:
  "(\<forall>p\<in>set xs. at b p = 0 \<longrightarrow> P p) \<Longrightarrow> spec_pick b (filter P xs) best = spec_pick b xs best"
  by (induction xs arbitrary: best) (auto simp: Let_def)

definition scan_agrees :: "Solver \<Rightarrow> (int \<times> nat \<times> mask) option \<Rightarrow> pick \<Rightarrow> bool" where
  "scan_agrees s res pk =
     (case res of
        None \<Rightarrow> pk = DeadEnd
      | Some (bi, bc, bm) \<Rightarrow>
          if bi = - 1 then pk = Complete
          else 0 \<le> bi \<and> nat bi < length (empties s) \<and>
               pk = Pick (empties s ! nat bi) \<and>
               bm = candidatesMask s (fst (empties s ! nat bi)) (snd (empties s ! nat bi)) \<and>
               at (board s) (empties s ! nat bi) = 0)"

lemma mrv_scan_refines:
  assumes mc: "masks_cover (set cells) s" and E: "set (empties s) \<subseteq> set cells"
  shows "empties s = pre @ es \<Longrightarrow> int (length pre) = i \<Longrightarrow>
     (fst best = - 1 \<and> fst (snd best) = 10 \<and> sbest = None) \<or>
     (0 \<le> fst best \<and> nat (fst best) < length (empties s) \<and>
        sbest = Some (empties s ! nat (fst best), fst (snd best)) \<and>
        snd (snd best) = candidatesMask s (fst (empties s ! nat (fst best))) (snd (empties s ! nat (fst best))) \<and>
        at (board s) (empties s ! nat (fst best)) = 0) \<Longrightarrow>
     scan_agrees s (mrv_scan s es i best) (spec_pick (board s) es sbest)"
proof (induction es arbitrary: pre i best sbest)
  case Nil
  then show ?case by (cases best) (auto simp: scan_agrees_def)
next
  case (Cons e es)
  let ?b = "board s"
  have pre': "empties s = (pre @ [e]) @ es" "int (length (pre @ [e])) = i + 1"
    using Cons.prems(1,2) by auto
  have ei: "empties s ! nat i = e" "0 \<le> i" "nat i < length (empties s)"
    using Cons.prems(1,2) by auto
  have ec: "e \<in> set cells" using E Cons.prems(1) by auto
  have bv: "board s ! fst e ! snd e = at ?b e" by (simp add: at_def)
  show ?case
  proof (cases "at ?b e = 0")
    case False
    then show ?thesis using Cons.IH[OF pre' Cons.prems(3)] by (simp add: bv Let_def)
  next
    case True
    let ?m = "candidatesMask s (fst e) (snd e)"
    have dg: "digits_of ?m = candidates ?b e" using candidates_mask[OF mc ec] .
    have pc: "popcount ?m = length (candidates ?b e)"
      using popcount_digits[OF nine_bits_candidatesMask] dg by simp
    have m0: "?m = 0 \<longleftrightarrow> candidates ?b e = []"
      using digits_of_Nil_iff[OF nine_bits_candidatesMask, of s "fst e" "snd e"] dg by simp
    have le9: "length (candidates ?b e) \<le> 9" using length_digits_le[of ?m] dg by simp
    show ?thesis
    proof (cases "candidates ?b e = []")
      case Nil': True
      then show ?thesis using True m0 by (simp add: bv Let_def scan_agrees_def)
    next
      case ne: False
      have cmp: "popcount ?m < fst (snd best) \<longleftrightarrow>
          (case sbest of None \<Rightarrow> True | Some (q, m) \<Rightarrow> length (candidates ?b e) < m)"
        using Cons.prems(3) pc le9 by (cases best) auto
      show ?thesis
      proof (cases "popcount ?m < fst (snd best)")
        case lt: True
        show ?thesis
        proof (cases "popcount ?m = 1")
          case one: True
          then show ?thesis using True ne m0 lt cmp pc ei
            by (auto simp: bv Let_def scan_agrees_def split: option.splits)
        next
          case notone: False
          have rel: "(fst (i, popcount ?m, ?m) = - 1 \<and> fst (snd (i, popcount ?m, ?m)) = 10 \<and>
               Some (e, length (candidates ?b e)) = None) \<or>
             (0 \<le> fst (i, popcount ?m, ?m) \<and> nat (fst (i, popcount ?m, ?m)) < length (empties s) \<and>
              Some (e, length (candidates ?b e))
                = Some (empties s ! nat (fst (i, popcount ?m, ?m)), fst (snd (i, popcount ?m, ?m))) \<and>
              snd (snd (i, popcount ?m, ?m))
                = candidatesMask s (fst (empties s ! nat (fst (i, popcount ?m, ?m))))
                    (snd (empties s ! nat (fst (i, popcount ?m, ?m)))) \<and>
              at ?b (empties s ! nat (fst (i, popcount ?m, ?m))) = 0)"
            using ei True pc by simp
          from Cons.IH[OF pre' rel] show ?thesis
            using True ne m0 lt cmp pc notone by (auto simp: bv Let_def split: option.splits)
        qed
      next
        case ge: False
        then show ?thesis using Cons.IH[OF pre' Cons.prems(3)] True ne m0 cmp pc
          by (auto simp: bv Let_def split: option.splits)
      qed
    qed
  qed
qed

text \<open>The invariant of the search: the board is well formed and free of conflicts, the
  masks describe it, and the empties list holds every empty cell, in scan order.\<close>

definition search_inv :: "Solver \<Rightarrow> bool" where
  "search_inv s = (wf_board (board s) \<and> \<not> conflict (board s) \<and> masks_cover (set cells) s \<and>
     (\<exists>P. empties s = filter P cells \<and> (\<forall>p\<in>set cells. at (board s) p = 0 \<longrightarrow> P p)))"

lemma mrv_scan_spec:
  assumes "search_inv s"
  shows "scan_agrees s (mrv_scan s (empties s) 0 (- 1, 10, 0)) (spec_pick (board s) cells None)"
proof -
  from assms obtain P where P: "empties s = filter P cells"
    "\<forall>p\<in>set cells. at (board s) p = 0 \<longrightarrow> P p" and mc: "masks_cover (set cells) s"
    by (auto simp: search_inv_def)
  have E: "set (empties s) \<subseteq> set cells" using P(1) by auto
  have eq: "spec_pick (board s) (empties s) None = spec_pick (board s) cells None"
    unfolding P(1) using P(2) by (rule spec_pick_filter)
  from mrv_scan_refines[OF mc E, of "[]" "empties s" 0 "(- 1, 10, 0)" None]
  show ?thesis unfolding eq by simp
qed

lemma covers_place:
  assumes "covers (set cells) b u ms" "dims b" "p \<in> set cells" "at b p = 0"
    "1 \<le> d" "d \<le> 9" "u p < 9"
  shows "covers (set cells) (set_cell b (fst p) (snd p) d) u (ms[u p := ms ! u p OR shl1 (d - 1)])"
proof -
  note at' = at_place[OF assms(2,3)]
  have len: "length ms = 9" using assms(1) by (simp add: covers_def)
  have old: "bit (ms ! i) k \<longleftrightarrow> (\<exists>q\<in>set cells. u q = i \<and> at b q = int k + 1)" if "i < 9" for i k
    using assms(1) that by (simp add: covers_def)
  have "bit ((ms[u p := ms ! u p OR shl1 (d - 1)]) ! i) k \<longleftrightarrow>
      (\<exists>q\<in>set cells. u q = i \<and> at (set_cell b (fst p) (snd p) d) q = int k + 1)"
    if i: "i < 9" for i k
  proof -
    have "bit ((ms[u p := ms ! u p OR shl1 (d - 1)]) ! i) k \<longleftrightarrow>
        bit (ms ! i) k \<or> (i = u p \<and> int k + 1 = d)"
      using i len assms(7) digit_bit[OF assms(5,6), of k]
      by (cases "i = u p") (simp_all add: nth_list_update bit_or_iff)
    also have "\<dots> \<longleftrightarrow> (\<exists>q\<in>set cells. u q = i \<and> at b q = int k + 1) \<or> (i = u p \<and> int k + 1 = d)"
      using old[OF i] by simp
    also have "\<dots> \<longleftrightarrow> (\<exists>q\<in>set cells. u q = i \<and> (if q = p then d else at b q) = int k + 1)"
      using assms(3,4) by (auto split: if_splits)
    also have "\<dots> \<longleftrightarrow> (\<exists>q\<in>set cells. u q = i \<and> at (set_cell b (fst p) (snd p) d) q = int k + 1)"
      using at' by (intro bex_cong refl) simp
    finally show ?thesis .
  qed
  then show ?thesis using len by (simp add: covers_def)
qed

lemma mask_restore:
  assumes "i < length ms" "ms ! i AND bt = 0"
  shows "(ms[i := ms ! i OR bt])[i := (ms[i := ms ! i OR bt]) ! i AND NOT bt] = (ms :: mask list)"
proof -
  have "(ms ! i OR bt) AND NOT bt = ms ! i"
  proof (rule bit_eqI)
    fix n
    have "\<not> (bit (ms ! i) n \<and> bit bt n)"
      using assms(2) by (metis bit_and_iff bit_0_eq bot_apply bot_bool_def)
    then show "bit ((ms ! i OR bt) AND NOT bt) n = bit (ms ! i) n"
      by (auto simp: bit_and_iff bit_or_iff bit_not_iff dest: bit_imp_possible_bit)
  qed
  then show ?thesis using assms(1) by simp
qed

lemma candidate_unused:
  assumes "covers (set cells) b u ms" "p \<in> set cells" "u p < 9"
    "d \<in> set (candidates b p)" "\<And>q. u q = u p \<Longrightarrow> peer p q"
  shows "ms ! u p AND shl1 (d - 1) = 0"
proof -
  have d: "1 \<le> d" "d \<le> 9" "\<not> used_in b p d" using assms(4) by (simp_all add: in_candidates)
  have "\<not> (\<exists>q\<in>set cells. u q = u p \<and> at b q = d)"
    using d(3) assms(5) by (auto simp: used_in_iff)
  then show ?thesis using covers_test[OF assms(1,3) d(1,2)] by blast
qed

lemma search_inv_place:
  assumes "search_inv s" "p \<in> set cells" "at (board s) p = 0" "d \<in> set (candidates (board s) p)"
  shows "search_inv (place (fst p) (snd p) d s)"
    and "unplace (fst p) (snd p) d (place (fst p) (snd p) d s) = s"
    and "board (place (fst p) (snd p) d s) = set_cell (board s) (fst p) (snd p) d"
proof -
  let ?b = "board s"
  let ?s' = "place (fst p) (snd p) d s"
  from assms(1) have wf: "wf_board ?b" and nc: "\<not> conflict ?b"
    and cv: "covers (set cells) ?b fst (rowMask s)" "covers (set cells) ?b snd (colMask s)"
      "covers (set cells) ?b blk (blockMask s)"
    by (simp_all add: search_inv_def masks_cover_def)
  from assms(1) obtain P where P: "empties s = filter P cells"
    "\<forall>q\<in>set cells. at ?b q = 0 \<longrightarrow> P q" by (auto simp: search_inv_def)
  have d: "1 \<le> d" "d \<le> 9" using assms(4) by (simp_all add: in_candidates)
  have rc: "fst p < 9" "snd p < 9" "blk p < 9" using assms(2) blk_less by (auto simp: set_cells)
  have dm: "dims ?b" using wf by (rule wf_board_dims)
  have bp: "blk p = blockIndex (fst p) (snd p)" by (simp add: blk_def)
  show b': "board ?s' = set_cell ?b (fst p) (snd p) d" by (simp add: place_def Let_def)
  have "masks_cover (set cells) ?s'"
    unfolding masks_cover_def b'
    using covers_place[OF cv(1) dm assms(2,3) d rc(1)] covers_place[OF cv(2) dm assms(2,3) d rc(2)]
      covers_place[OF cv(3) dm assms(2,3) d rc(3)]
    by (simp add: place_def Let_def bp[symmetric])
  moreover have "empties ?s' = filter P cells" using P(1) by (simp add: place_def Let_def)
  moreover have "\<forall>q\<in>set cells. at (board ?s') q = 0 \<longrightarrow> P q"
    unfolding b' using at_place[OF dm assms(2)] P(2) d by auto
  ultimately show "search_inv ?s'"
    unfolding search_inv_def using place_ok[OF wf nc assms(2,4)] b' by auto
  have len: "length (rowMask s) = 9" "length (colMask s) = 9" "length (blockMask s) = 9"
    using cv by (simp_all add: covers_def)
  have z1: "rowMask s ! fst p AND shl1 (d - 1) = 0"
    using candidate_unused[OF cv(1) assms(2) rc(1) assms(4)] by (simp add: peer_def)
  have z2: "colMask s ! snd p AND shl1 (d - 1) = 0"
    using candidate_unused[OF cv(2) assms(2) rc(2) assms(4)] by (simp add: peer_def)
  have z3: "blockMask s ! blockIndex (fst p) (snd p) AND shl1 (d - 1) = 0"
    using candidate_unused[OF cv(3) assms(2) rc(3) assms(4)] by (simp add: peer_def bp[symmetric])
  have bb: "set_cell (set_cell ?b (fst p) (snd p) d) (fst p) (snd p) 0 = ?b"
    using set_cell_same[of ?b "fst p" "snd p"] assms(3) by (simp add: set_cell_twice)
  show "unplace (fst p) (snd p) d ?s' = s"
    unfolding unplace_def place_def Let_def
    using mask_restore[OF _ z1] mask_restore[OF _ z2] mask_restore[OF _ z3] len rc bb
    by (simp add: bp[symmetric])
qed

text \<open>What a search over the solutions \<open>L\<close> (in the order found) does to the captured
  variables, and what it returns.\<close>

definition after :: "int \<Rightarrow> Board list \<Rightarrow> Search \<Rightarrow> Search" where
  "after lim L st = st\<lparr>outCount := min lim (outCount st + int (length L)),
     saved := (case saved st of None \<Rightarrow> (case L of [] \<Rightarrow> None | x # xs \<Rightarrow> Some x) | Some y \<Rightarrow> Some y)\<rparr>"

definition expect :: "int \<Rightarrow> Board list \<Rightarrow> Search \<Rightarrow> (bool \<times> Search) option" where
  "expect lim L st = Some (lim \<le> outCount (after lim L st), after lim L st)"

lemma after_Nil: "outCount st < lim \<Longrightarrow> after lim [] st = st"
  by (cases "saved st") (simp_all add: after_def min_def)

lemma after_sv: "sv (after lim L st) = sv st"
  by (simp add: after_def)

lemma after_append:
  "outCount (after lim L1 st) < lim \<Longrightarrow> after lim L2 (after lim L1 st) = after lim (L1 @ L2) st"
  by (cases "saved st"; cases L1) (auto simp: after_def min_def)

lemma after_stop:
  "\<not> outCount (after lim L1 st) < lim \<Longrightarrow> outCount st < lim \<Longrightarrow>
     after lim (L1 @ L2) st = after lim L1 st"
  by (cases "saved st"; cases L1) (auto simp: after_def min_def)

lemma after_frame: "(after lim L (st\<lparr>sv := x\<rparr>))\<lparr>sv := sv st\<rparr> = after lim L st"
  by (simp add: after_def)

lemma unat_clear_lowbit:
  assumes "m \<noteq> (0::mask)"
  shows "unat (m - (m AND - m)) < unat m"
proof -
  from ctz_least[OF assms] have k: "bit m (ctz m)" by simp
  have lb: "m AND - m = push_bit (ctz m) 1" using lowbit[OF assms] .
  have eq: "m - (m AND - m) = m AND NOT (push_bit (ctz m) 1)"
    unfolding lb using k by (rule clear_lowbit)
  have "m AND NOT (push_bit (ctz m) 1) \<le> m" by (rule word_and_le2)
  moreover have "m AND NOT (push_bit (ctz m) 1) \<noteq> m"
  proof
    assume "m AND NOT (push_bit (ctz m) 1) = m"
    then have "bit (m AND NOT (push_bit (ctz m) 1)) (ctz m)" using k by simp
    then show False by (simp add: bit_simps)
  qed
  ultimately have "m - (m AND - m) < m" unfolding eq by simp
  then show ?thesis by (simp add: word_less_nat_alt)
qed

lemma try_refines:
  assumes IH: "\<And>st'. zeros (board (sv st')) < Z \<Longrightarrow> search_inv (sv st') \<Longrightarrow> outCount st' < lim \<Longrightarrow>
      run lim Dfs st' = expect lim (spec_search (board (sv st'))) st'"
  shows "zeros (board (sv st)) = Z \<Longrightarrow> search_inv (sv st) \<Longrightarrow> outCount st < lim \<Longrightarrow>
     p \<in> set cells \<Longrightarrow> at (board (sv st)) p = 0 \<Longrightarrow> nine_bits m \<Longrightarrow>
     set (digits_of m) \<subseteq> set (candidates (board (sv st)) p) \<Longrightarrow>
     run lim (Try (fst p) (snd p) m) st =
       expect lim (concat (map (\<lambda>d. spec_search (set_cell (board (sv st)) (fst p) (snd p) d))
                     (digits_of m))) st"
proof (induction "unat m" arbitrary: m st rule: less_induct)
  case less
  let ?b = "board (sv st)"
  let ?f = "\<lambda>d. spec_search (set_cell ?b (fst p) (snd p) d)"
  show ?case
  proof (cases "m = 0")
    case True
    have "run lim (Try (fst p) (snd p) m) st = Some (False, st)"
      using True by (subst run.simps) simp
    then show ?thesis using True less.prems(3)
      by (simp add: digits_of_0 expect_def after_Nil)
  next
    case False
    let ?lb = "m AND - m"
    let ?d = "int (ctz ?lb) + 1"
    let ?m' = "m - ?lb"
    let ?st1 = "st\<lparr>sv := place (fst p) (snd p) ?d (sv st)\<rparr>"
    note ds = digits_of_step[OF False less.prems(6)]
    have dc: "?d \<in> set (candidates ?b p)" using ds(1) less.prems(7) by auto
    note pl = search_inv_place[OF less.prems(2,4,5) dc]
    have dm: "dims ?b" using less.prems(2) by (simp add: search_inv_def wf_board_dims)
    have d0: "?d \<noteq> 0" by simp
    have z: "zeros (board (sv ?st1)) < Z"
      using zeros_set_cell[OF dm less.prems(4,5) d0] pl(3) less.prems(1) by simp
    have r1: "run lim Dfs ?st1 = expect lim (?f ?d) ?st1"
      using IH[OF z] pl(1,3) less.prems(3) by simp
    let ?st3 = "after lim (?f ?d) st"
    have st3: "(after lim (?f ?d) ?st1)\<lparr>sv := unplace (fst p) (snd p) ?d (sv (after lim (?f ?d) ?st1))\<rparr> = ?st3"
      using pl(2) after_frame[where lim = lim and L = "?f ?d" and st = st] by (simp add: after_sv)
    have step: "run lim (Try (fst p) (snd p) m) st =
        (if lim \<le> outCount (after lim (?f ?d) ?st1) then Some (True, ?st3)
         else run lim (Try (fst p) (snd p) ?m') ?st3)"
      using False less.prems(3) st3
      by (subst run.simps) (simp add: Let_def r1 expect_def)
    have oc: "outCount (after lim (?f ?d) ?st1) = outCount ?st3" by (simp add: after_def)
    have cc: "concat (map ?f (digits_of m)) = ?f ?d @ concat (map ?f (digits_of ?m'))"
      using ds(1) by simp
    show ?thesis
    proof (cases "lim \<le> outCount ?st3")
      case True
      then have ns: "\<not> outCount ?st3 < lim" by simp
      show ?thesis unfolding step cc expect_def after_stop[OF ns less.prems(3)]
        using True oc by simp
    next
      case nostop: False
      then have lt: "outCount ?st3 < lim" by simp
      have sub: "set (digits_of ?m') \<subseteq> set (candidates (board (sv ?st3)) p)"
        using ds(1) less.prems(7) by (auto simp: after_sv)
      have "run lim (Try (fst p) (snd p) ?m') ?st3 =
          expect lim (concat (map (\<lambda>d. spec_search (set_cell (board (sv ?st3)) (fst p) (snd p) d))
              (digits_of ?m'))) ?st3"
        using less.hyps[OF unat_clear_lowbit[OF False], of ?st3] less.prems(1,2,4,5) lt ds(5) sub
        by (simp add: after_sv)
      then show ?thesis unfolding step cc expect_def using nostop oc
        by (simp add: after_sv after_append[OF lt])
    qed
  qed
qed

lemma dfs_refines:
  "search_inv (sv st) \<Longrightarrow> outCount st < lim \<Longrightarrow>
     run lim Dfs st = expect lim (spec_search (board (sv st))) st"
proof (induction "zeros (board (sv st))" arbitrary: st rule: less_induct)
  case less
  let ?s = "sv st"
  let ?b = "board ?s"
  have dm: "dims ?b" using less.prems(1) by (simp add: search_inv_def wf_board_dims)
  note ag = mrv_scan_spec[OF less.prems(1)]
  show ?case
  proof (cases "mrv_scan ?s (empties ?s) 0 (- 1, 10, 0)")
    case None
    then have "spec_pick ?b cells None = DeadEnd" using ag by (simp add: scan_agrees_def)
    then have ss: "spec_search ?b = []" using dm by (simp add: spec_search.simps)
    have "run lim Dfs st = Some (False, st)"
      using None less.prems(2) by (subst run.simps) simp
    then show ?thesis using less.prems(2) by (simp add: ss expect_def after_Nil)
  next
    case (Some res)
    obtain bi bc bm where res: "res = (bi, bc, bm)" by (cases res) auto
    show ?thesis
    proof (cases "bi = - 1")
      case True
      then have "spec_pick ?b cells None = Complete"
        using ag Some res by (simp add: scan_agrees_def)
      then have ss: "spec_search ?b = [?b]" using dm by (simp add: spec_search.simps)
      have "run lim Dfs st =
         Some (lim \<le> outCount st + 1,
               if saved st = None then st\<lparr>outCount := outCount st + 1, saved := Some ?b\<rparr>
               else st\<lparr>outCount := outCount st + 1\<rparr>)"
        using Some res True less.prems(2) by (subst run.simps) (simp add: Let_def)
      then show ?thesis using less.prems(2)
        by (cases "saved st") (auto simp: ss expect_def after_def min_def)
    next
      case False
      let ?p = "empties ?s ! nat bi"
      from ag Some res False have pk: "spec_pick ?b cells None = Pick ?p"
        and bm: "bm = candidatesMask ?s (fst ?p) (snd ?p)" and z: "at ?b ?p = 0"
        by (simp_all add: scan_agrees_def)
      from spec_pick_Pick[OF pk] have pc: "?p \<in> set cells" by auto
      have ss: "spec_search ?b =
          concat (map (\<lambda>d. spec_search (set_cell ?b (fst ?p) (snd ?p) d)) (candidates ?b ?p))"
        using pk dm by (simp add: spec_search.simps)
      have mc: "masks_cover (set cells) ?s" using less.prems(1) by (simp add: search_inv_def)
      have dg: "digits_of bm = candidates ?b ?p" unfolding bm by (rule candidates_mask[OF mc pc])
      have nb: "nine_bits bm" unfolding bm by (rule nine_bits_candidatesMask)
      have "run lim Dfs st = run lim (Try (fst ?p) (snd ?p) bm) st"
        using Some res False less.prems(2) by (subst run.simps) (simp add: Let_def)
      also have "\<dots> = expect lim (concat (map (\<lambda>d. spec_search (set_cell ?b (fst ?p) (snd ?p) d))
                     (digits_of bm))) st"
        using less.hyps
        by (rule try_refines[OF _ refl less.prems(1,2) pc z nb]) (simp_all add: dg)
      finally show ?thesis by (simp add: ss dg)
    qed
  qed
qed

section \<open>Solved boards, unit by unit\<close>

text \<open>The 27 units: the rows, the columns and the 3x3 blocks, as lists of cells.\<close>

definition units :: "(nat \<times> nat) list list" where
  "units = map (\<lambda>r. map (\<lambda>c. (r, c)) [0..<9]) [0..<9]
         @ map (\<lambda>c. map (\<lambda>r. (r, c)) [0..<9]) [0..<9]
         @ map (\<lambda>i. filter (\<lambda>p. blk p = i) cells) [0..<9]"

text \<open>A unit contains each of the digits 1 through 9 exactly once.\<close>

definition each_once :: "Board \<Rightarrow> (nat \<times> nat) list \<Rightarrow> bool" where
  "each_once b u = list_all (\<lambda>d. count_list (map (at b) u) d = 1) [1..9]"

definition valid_solution :: "Board \<Rightarrow> bool" where
  "valid_solution b =
     (length b = 9 \<and> list_all (\<lambda>row. length row = 9) b \<and> list_all (each_once b) units)"

lemma block_unit_length: "i < 9 \<Longrightarrow> length (filter (\<lambda>p. blk p = i) cells) = 9"
proof -
  have "\<forall>i\<in>set [0..<9]. length (filter (\<lambda>p. blk p = i) cells) = 9"
    by code_simp
  then show "i < 9 \<Longrightarrow> ?thesis" by simp
qed

lemma set_units:
  "set units = (\<lambda>r. map (\<lambda>c. (r, c)) [0..<9]) ` {0..<9}
     \<union> (\<lambda>c. map (\<lambda>r. (r, c)) [0..<9]) ` {0..<9}
     \<union> (\<lambda>i. filter (\<lambda>p. blk p = i) cells) ` {0..<9}"
  unfolding units_def set_append set_map set_upt by (simp only: Un_assoc)

lemma unit_props:
  assumes "u \<in> set units"
  shows "distinct u" "length u = 9" "set u \<subseteq> set cells" "\<And>p q. p \<in> set u \<Longrightarrow> q \<in> set u \<Longrightarrow> peer p q"
proof -
  from assms consider
    (row) r where "r < 9" "u = map (\<lambda>c. (r, c)) [0..<9]" |
    (col) c where "c < 9" "u = map (\<lambda>r. (r, c)) [0..<9]" |
    (block) i where "i < 9" "u = filter (\<lambda>p. blk p = i) cells"
    unfolding set_units by (auto simp only: Un_iff image_iff atLeastLessThan_iff)
  then have "distinct u \<and> length u = 9 \<and> set u \<subseteq> set cells \<and>
     (\<forall>p q. p \<in> set u \<longrightarrow> q \<in> set u \<longrightarrow> peer p q)"
  proof cases
    case row
    have "distinct u" unfolding row(2) by (simp add: distinct_map inj_on_def del: upt_Suc)
    moreover have "length u = 9" unfolding row(2) by (simp del: upt_Suc)
    moreover have "set u = {p. fst p = r \<and> snd p < 9}"
      unfolding row(2) by (auto simp del: upt_Suc)
    ultimately show ?thesis using row(1) by (simp add: set_cells peer_def subset_iff)
  next
    case col
    have "distinct u" unfolding col(2) by (simp add: distinct_map inj_on_def del: upt_Suc)
    moreover have "length u = 9" unfolding col(2) by (simp del: upt_Suc)
    moreover have "set u = {p. snd p = c \<and> fst p < 9}"
      unfolding col(2) by (auto simp del: upt_Suc)
    ultimately show ?thesis using col(1) by (simp add: set_cells peer_def subset_iff)
  next
    case block
    have "distinct u" unfolding block(2) using distinct_cells by simp
    moreover have "length u = 9" unfolding block(2) using block(1) by (rule block_unit_length)
    moreover have "set u = {p \<in> set cells. blk p = i}" unfolding block(2) by simp
    ultimately show ?thesis by (simp add: peer_def subset_iff)
  qed
  then show "distinct u" "length u = 9" "set u \<subseteq> set cells"
    "\<And>p q. p \<in> set u \<Longrightarrow> q \<in> set u \<Longrightarrow> peer p q" by blast+
qed

lemma peer_unit:
  assumes "p \<in> set cells" "q \<in> set cells" "peer p q"
  shows "\<exists>u\<in>set units. p \<in> set u \<and> q \<in> set u"
proof -
  have pq: "fst p < 9" "snd p < 9" "fst q < 9" "snd q < 9" "blk p < 9"
    using assms(1,2) blk_less by (simp_all add: set_cells)
  from assms(3) consider "fst p = fst q" | "snd p = snd q" | "blk p = blk q"
    unfolding peer_def by blast
  then show ?thesis
  proof cases
    case 1
    let ?u = "map (\<lambda>c. (fst p, c)) [0..<9]"
    have "?u \<in> set units" unfolding set_units using pq(1) by (intro UnI1 imageI) simp
    moreover have "set ?u = {x. fst x = fst p \<and> snd x < 9}" by (auto simp del: upt_Suc)
    ultimately show ?thesis using pq 1 by (intro bexI[of _ ?u]) simp_all
  next
    case 2
    let ?u = "map (\<lambda>r. (r, snd p)) [0..<9]"
    have "?u \<in> set units" unfolding set_units using pq(2) by (intro UnI1 UnI2 imageI) simp
    moreover have "set ?u = {x. snd x = snd p \<and> fst x < 9}" by (auto simp del: upt_Suc)
    ultimately show ?thesis using pq 2 by (intro bexI[of _ ?u]) simp_all
  next
    case 3
    let ?u = "filter (\<lambda>x. blk x = blk p) cells"
    have "?u \<in> set units" unfolding set_units using pq(5) by (intro UnI2 imageI) simp
    moreover have "p \<in> set ?u" "q \<in> set ?u" using assms(1,2) 3 by simp_all
    ultimately show ?thesis by blast
  qed
qed

lemma count_list_distinct: "distinct xs \<Longrightarrow> x \<in> set xs \<Longrightarrow> count_list xs x = 1"
  by (induction xs) auto

lemma count_list_twice:
  "distinct u \<Longrightarrow> p \<in> set u \<Longrightarrow> q \<in> set u \<Longrightarrow> p \<noteq> q \<Longrightarrow> f p = f q \<Longrightarrow>
     2 \<le> count_list (map f u) (f p)"
proof (induction u)
  case Nil
  then show ?case by simp
next
  case (Cons a u)
  have mem: "x \<in> set u \<Longrightarrow> 1 \<le> count_list (map f u) (f x)" for x
  proof -
    assume "x \<in> set u"
    then have "f x \<in> set (map f u)" by simp
    then have "count_list (map f u) (f x) \<noteq> 0" by (simp only: count_list_0_iff) simp
    then show ?thesis by simp
  qed
  show ?case
  proof (cases "a = p")
    case True
    then have "q \<in> set u" using Cons.prems by auto
    from mem[OF this] show ?thesis using True Cons.prems(5) by simp
  next
    case False
    show ?thesis
    proof (cases "a = q")
      case True
      then have "p \<in> set u" using Cons.prems False by auto
      from mem[OF this] show ?thesis using True Cons.prems(5) by simp
    next
      case aq: False
      then have "2 \<le> count_list (map f u) (f p)" using Cons False by auto
      then show ?thesis by simp
    qed
  qed
qed

lemma filter_count_sum:
  "finite A \<Longrightarrow> length (filter (\<lambda>x. x \<in> A) xs) = (\<Sum>d\<in>A. count_list xs d)"
proof (induction xs)
  case Nil
  then show ?case by simp
next
  case (Cons a xs)
  show ?case
  proof (cases "a \<in> A")
    case True
    have "(\<Sum>d\<in>A. count_list (a # xs) d) = (\<Sum>d\<in>A. count_list xs d + (if d = a then 1 else 0))"
      by (intro sum.cong) auto
    also have "\<dots> = (\<Sum>d\<in>A. count_list xs d) + 1"
      using Cons.prems True by (simp add: sum.distrib)
    finally show ?thesis using Cons True by simp
  next
    case False
    have "(\<Sum>d\<in>A. count_list (a # xs) d) = (\<Sum>d\<in>A. count_list xs d)"
      using False by (intro sum.cong) auto
    then show ?thesis using Cons False by simp
  qed
qed

lemma each_once_range:
  assumes "each_once b u" "length u = 9" "p \<in> set u"
  shows "1 \<le> at b p \<and> at b p \<le> 9"
proof -
  let ?xs = "map (at b) u"
  have c1: "count_list ?xs d = 1" if "d \<in> {1..9}" for d
    using assms(1) that by (simp add: each_once_def list_all_iff)
  have "length (filter (\<lambda>x. x \<in> {1..9::int}) ?xs) = (\<Sum>d\<in>{1..9::int}. count_list ?xs d)"
    by (rule filter_count_sum) simp
  also have "\<dots> = (\<Sum>d\<in>{1..9::int}. 1)" using c1 by (intro sum.cong) auto
  also have "\<dots> = length ?xs" using assms(2) by simp
  finally have len: "length (filter (\<lambda>x. x \<in> {1..9::int}) ?xs) = length ?xs" .
  have "\<forall>x\<in>set ?xs. x \<in> {1..9}"
  proof (rule ccontr)
    assume "\<not> (\<forall>x\<in>set ?xs. x \<in> {1..9})"
    then obtain x where "x \<in> set ?xs" "\<not> x \<in> {1..9}" by blast
    from length_filter_less[of x ?xs "\<lambda>x. x \<in> {1..9}"] this len show False by simp
  qed
  then show ?thesis using assms(3) by auto
qed

lemma valid_solution_solved:
  assumes "valid_solution b"
  shows "solved b"
proof -
  from assms have dm: "dims b"
    by (simp add: valid_solution_def dims_def list_all_length)
  from assms have eo: "\<And>u. u \<in> set units \<Longrightarrow> each_once b u"
    by (simp add: valid_solution_def list_all_iff)
  have rng: "1 \<le> at b p \<and> at b p \<le> 9" if "p \<in> set cells" for p
  proof -
    from peer_unit[OF that that] obtain u where u: "u \<in> set units" "p \<in> set u"
      by (auto simp: peer_def)
    from each_once_range[OF eo[OF u(1)] unit_props(2)[OF u(1)] u(2)] show ?thesis .
  qed
  have wf: "wf_board b" unfolding wf_board_iff using dm rng by force
  have co: "complete b" unfolding complete_iff using rng by force
  have "\<not> conflict b"
  proof
    assume "conflict b"
    then obtain p q where pq: "p \<in> set cells" "q \<in> set cells" "p \<noteq> q" "peer p q"
      "at b p = at b q" unfolding conflict_iff by blast
    from peer_unit[OF pq(1,2,4)] obtain u where u: "u \<in> set units" "p \<in> set u" "q \<in> set u"
      by blast
    from count_list_twice[OF unit_props(1)[OF u(1)] u(2,3) pq(3), of "at b"] pq(5)
    have "2 \<le> count_list (map (at b) u) (at b p)" by simp
    moreover have "count_list (map (at b) u) (at b p) = 1"
      using eo[OF u(1)] rng[OF pq(1)] by (simp add: each_once_def list_all_iff)
    ultimately show False by simp
  qed
  then show ?thesis using wf co by (simp add: solved_def)
qed

lemma solved_valid_solution:
  assumes "solved b"
  shows "valid_solution b"
proof -
  from assms have wf: "wf_board b" and co: "complete b" and nc: "\<not> conflict b"
    by (simp_all add: solved_def)
  have "each_once b u" if u: "u \<in> set units" for u
  proof -
    note up = unit_props[OF u]
    let ?xs = "map (at b) u"
    have rng: "1 \<le> at b p \<and> at b p \<le> 9" if "p \<in> set u" for p
      using wf_board_range[OF wf, of p] co up(3) that by (force simp: complete_iff)
    have inj: "inj_on (at b) (set u)"
    proof (rule inj_onI)
      fix p q assume a: "p \<in> set u" "q \<in> set u" "at b p = at b q"
      show "p = q"
      proof (rule ccontr)
        assume "p \<noteq> q"
        then have "conflict b" unfolding conflict_iff
          using a up(3) up(4)[OF a(1,2)] rng[OF a(1)]
          by (intro bexI[of _ p] bexI[of _ q]) auto
        then show False using nc by simp
      qed
    qed
    have dist: "distinct ?xs" using up(1) inj by (simp add: distinct_map)
    have sub: "set ?xs \<subseteq> {1..9}" using rng by auto
    have "card (set ?xs) = 9" using distinct_card[OF dist] up(2) by simp
    then have "set ?xs = {1..9}" using sub by (intro card_subset_eq) auto
    then show ?thesis unfolding each_once_def list_all_iff
      using count_list_distinct[OF dist] by auto
  qed
  then show ?thesis using wf
    by (auto simp: valid_solution_def wf_board_def list_all_iff)
qed


section \<open>What solve returns\<close>

lemma loadBoard_inv:
  assumes "wf_board b" "loadBoard b = (True, s)"
  shows "search_inv s" "board s = b"
proof -
  note st = loadBoard_state[OF assms]
  show "board s = b" by (rule st(1))
  have "\<not> conflict b" using loadBoard_ok[OF assms(1)] assms(2) by simp
  moreover have "\<exists>P. empties s = filter P cells \<and> (\<forall>p\<in>set cells. at (board s) p = 0 \<longrightarrow> P p)"
    using st(1,3) by (intro exI[of _ "\<lambda>p. at b p = 0"]) simp
  ultimately show "search_inv s" using assms(1) st(1,2) by (simp add: search_inv_def)
qed

lemma solve_spec:
  assumes "search_inv s"
  shows "solve lim s =
    Some (if lim \<le> 0 then (False, 0, s)
          else (spec_search (board s) \<noteq> [], min lim (int (length (spec_search (board s)))),
                (case spec_search (board s) of [] \<Rightarrow> s | x # xs \<Rightarrow> s\<lparr>board := x\<rparr>)))"
proof (cases "lim \<le> 0")
  case True
  have "run lim Dfs \<lparr>sv = s, outCount = 0, saved = None\<rparr> = Some (True, \<lparr>sv = s, outCount = 0, saved = None\<rparr>)"
    using True by (subst run.simps) simp
  then show ?thesis using True by (simp add: solve_def)
next
  case False
  let ?st = "\<lparr>sv = s, outCount = 0, saved = None\<rparr>"
  have "run lim Dfs ?st = expect lim (spec_search (board (sv ?st))) ?st"
    using assms False by (intro dfs_refines) simp_all
  then show ?thesis using False
    by (cases "spec_search (board s)") (simp_all add: solve_def expect_def after_def min_def)
qed

lemma first_solution:
  assumes "wf_board b" "\<not> conflict b" "solution_of b u"
  shows "spec_search b \<noteq> []" "solution_of b (hd (spec_search b))"
proof -
  from spec_search_sound_complete[OF assms(1,2)]
  have eq: "set (spec_search b) = {s. solution_of b s}" by simp
  then show ne: "spec_search b \<noteq> []" using assms(3) by auto
  then have "hd (spec_search b) \<in> set (spec_search b)" by simp
  then show "solution_of b (hd (spec_search b))" using eq by simp
qed

lemma masks_stale:
  assumes "search_inv s" "solution_of (board s) x" "p \<in> set cells" "at (board s) p = 0"
  shows "\<not> masks_cover (set cells) (s\<lparr>board := x\<rparr>)"
proof
  let ?b = "board s"
  assume "masks_cover (set cells) (s\<lparr>board := x\<rparr>)"
  then have cx: "covers (set cells) x fst (rowMask s)" by (simp add: masks_cover_def)
  from assms(1) have cb: "covers (set cells) ?b fst (rowMask s)"
    by (simp add: search_inv_def masks_cover_def)
  from assms(2) have wf: "wf_board x" and co: "complete x" and nc: "\<not> conflict x"
    and ex: "extends ?b x" by (simp_all add: solution_of_def solved_def)
  have rng: "1 \<le> at x p \<and> at x p \<le> 9"
    using wf_board_range[OF wf assms(3)] co assms(3) by (force simp: complete_iff)
  define k where "k = nat (at x p - 1)"
  have k: "at x p = int k + 1" using rng by (simp add: k_def)
  have r9: "fst p < 9" using assms(3) by (simp add: set_cells)
  have "bit (rowMask s ! fst p) k" using cx r9 assms(3) k unfolding covers_def by blast
  then obtain q where q: "q \<in> set cells" "fst q = fst p" "at ?b q = int k + 1"
    using cb r9 unfolding covers_def by blast
  have "q \<noteq> p" using q(3) assms(4) by auto
  moreover have "at x q = at x p" using ex q k by (simp add: extends_iff)
  ultimately have "conflict x" unfolding conflict_iff using q assms(3) rng
    by (intro bexI[of _ p] bexI[of _ q]) (auto simp: peer_def)
  then show False using nc by simp
qed


text \<open>Cheaper ways to see that a board has no conflict.\<close>

definition units_ok :: "Board \<Rightarrow> bool" where
  "units_ok b = list_all (\<lambda>u. distinct (filter (\<lambda>v. v \<noteq> 0) (map (at b) u))) units"

lemma count_list_le1: "distinct xs \<Longrightarrow> count_list xs x \<le> 1"
  by (induction xs) auto

lemma count_list_filter: "P x \<Longrightarrow> count_list (filter P xs) x = count_list xs x"
  by (induction xs) auto

lemma units_ok_no_conflict:
  assumes "units_ok b"
  shows "\<not> conflict b"
proof
  assume "conflict b"
  then obtain p q where pq: "p \<in> set cells" "q \<in> set cells" "p \<noteq> q" "peer p q"
    "at b p \<noteq> 0" "at b p = at b q" unfolding conflict_iff by blast
  from peer_unit[OF pq(1,2,4)] obtain u where u: "u \<in> set units" "p \<in> set u" "q \<in> set u"
    by blast
  from count_list_twice[OF unit_props(1)[OF u(1)] u(2,3) pq(3), of "at b"] pq(6)
  have "2 \<le> count_list (map (at b) u) (at b p)" by simp
  then have "2 \<le> count_list (filter (\<lambda>v. v \<noteq> 0) (map (at b) u)) (at b p)"
    using pq(5) by (simp add: count_list_filter)
  moreover have "distinct (filter (\<lambda>v. v \<noteq> 0) (map (at b) u))"
    using assms u(1) by (simp add: units_ok_def list_all_iff)
  ultimately show False using count_list_le1[of "filter (\<lambda>v. v \<noteq> 0) (map (at b) u)" "at b p"]
    by simp
qed

lemma extends_no_conflict:
  assumes "extends b s" "\<not> conflict s"
  shows "\<not> conflict b"
proof
  assume "conflict b"
  then obtain p q where pq: "p \<in> set cells" "q \<in> set cells" "p \<noteq> q" "peer p q"
    "at b p \<noteq> 0" "at b p = at b q" unfolding conflict_iff by blast
  then have "at s p = at b p" "at s q = at b q" using assms(1) by (simp_all add: extends_iff)
  then have "conflict s" unfolding conflict_iff using pq
    by (intro bexI[of _ p] bexI[of _ q]) auto
  then show False using assms(2) by simp
qed

section \<open>Sample boards\<close>

definition full1 :: Board where
  "full1 =
    [[5,3,4,6,7,8,9,1,2],
     [6,7,2,1,9,5,3,4,8],
     [1,9,8,3,4,2,5,6,7],
     [8,5,9,7,6,1,4,2,3],
     [4,2,6,8,5,3,7,9,1],
     [7,1,3,9,2,4,8,5,6],
     [9,6,1,5,3,7,2,8,4],
     [2,8,7,4,1,9,6,3,5],
     [3,4,5,2,8,6,1,7,9]]"

text \<open>\<open>full1\<close> with the digits 1 and 3 exchanged in rows 3 and 4, columns 5 and 8.\<close>

definition full2 :: Board where
  "full2 =
    [[5,3,4,6,7,8,9,1,2],
     [6,7,2,1,9,5,3,4,8],
     [1,9,8,3,4,2,5,6,7],
     [8,5,9,7,6,3,4,2,1],
     [4,2,6,8,5,1,7,9,3],
     [7,1,3,9,2,4,8,5,6],
     [9,6,1,5,3,7,2,8,4],
     [2,8,7,4,1,9,6,3,5],
     [3,4,5,2,8,6,1,7,9]]"

text \<open>\<open>full1\<close> without its first cell: one solution.\<close>

definition one_empty :: Board where
  "one_empty =
    [[0,3,4,6,7,8,9,1,2],
     [6,7,2,1,9,5,3,4,8],
     [1,9,8,3,4,2,5,6,7],
     [8,5,9,7,6,1,4,2,3],
     [4,2,6,8,5,3,7,9,1],
     [7,1,3,9,2,4,8,5,6],
     [9,6,1,5,3,7,2,8,4],
     [2,8,7,4,1,9,6,3,5],
     [3,4,5,2,8,6,1,7,9]]"

text \<open>\<open>full1\<close> without the four cells in which \<open>full2\<close> differs: two solutions.\<close>

definition two_sol :: Board where
  "two_sol =
    [[5,3,4,6,7,8,9,1,2],
     [6,7,2,1,9,5,3,4,8],
     [1,9,8,3,4,2,5,6,7],
     [8,5,9,7,6,0,4,2,0],
     [4,2,6,8,5,0,7,9,0],
     [7,1,3,9,2,4,8,5,6],
     [9,6,1,5,3,7,2,8,4],
     [2,8,7,4,1,9,6,3,5],
     [3,4,5,2,8,6,1,7,9]]"

text \<open>No conflict, but the last cell of row 0 has no candidate: no solution.\<close>

definition no_sol :: Board where
  "no_sol =
    [[1,2,3,4,5,6,7,8,0],
     [0,0,0,0,0,0,0,0,9],
     [0,0,0,0,0,0,0,0,0],
     [0,0,0,0,0,0,0,0,0],
     [0,0,0,0,0,0,0,0,0],
     [0,0,0,0,0,0,0,0,0],
     [0,0,0,0,0,0,0,0,0],
     [0,0,0,0,0,0,0,0,0],
     [0,0,0,0,0,0,0,0,0]]"

lemma solved_full1: "solved full1"
proof -
  have "valid_solution full1" by code_simp
  then show ?thesis by (rule valid_solution_solved)
qed

lemma solved_full2: "solved full2"
proof -
  have "valid_solution full2" by code_simp
  then show ?thesis by (rule valid_solution_solved)
qed

lemma loads:
  assumes "wf_board b" "\<not> conflict b"
  shows "loadBoard b = (True, snd (loadBoard b))"
  using loadBoard_ok[OF assms(1)] assms(2) by (cases "loadBoard b") simp

lemma one_empty_props:
  shows "wf_board one_empty" "\<not> conflict one_empty" "solution_of one_empty full1"
    "\<forall>v. solution_of one_empty v \<longrightarrow> v = full1" "\<not> complete one_empty"
proof -
  show wf: "wf_board one_empty" by code_simp
  show "\<not> complete one_empty" by code_simp
  have ex: "extends one_empty full1" by code_simp
  have "\<not> conflict full1" using solved_full1 by (simp add: solved_def)
  with ex show "\<not> conflict one_empty" by (rule extends_no_conflict)
  from ex show "solution_of one_empty full1" using solved_full1 by (simp add: solution_of_def)
  have c: "candidates one_empty (0, 0) = [5]" by code_simp
  have sc: "set_cell one_empty 0 0 5 = full1" by code_simp
  have z: "at one_empty (0, 0) = 0" "(0, 0) \<in> set cells" by code_simp+
  have f: "wf_board full1" "\<not> conflict full1" "\<forall>p\<in>set cells. at full1 p \<noteq> 0"
    using solved_full1 by (simp_all add: solved_def complete_iff)
  show "\<forall>v. solution_of one_empty v \<longrightarrow> v = full1"
    using solutions_split[OF wf z(2,1)] complete_solution[OF f] by (simp add: c sc)
qed

lemma two_sol_props:
  shows "wf_board two_sol" "\<not> conflict two_sol" "solution_of two_sol full1"
    "solution_of two_sol full2" "full1 \<noteq> full2"
proof -
  show "wf_board two_sol" by code_simp
  have ex: "extends two_sol full1" by code_simp
  then show "solution_of two_sol full1" using solved_full1 by (simp add: solution_of_def)
  have "\<not> conflict full1" using solved_full1 by (simp add: solved_def)
  with ex show "\<not> conflict two_sol" by (rule extends_no_conflict)
  have "extends two_sol full2" by code_simp
  then show "solution_of two_sol full2" using solved_full2 by (simp add: solution_of_def)
  show "full1 \<noteq> full2" by code_simp
qed

lemma no_sol_props:
  shows "wf_board no_sol" "\<not> conflict no_sol" "\<forall>u. \<not> solution_of no_sol u"
proof -
  show "wf_board no_sol" by code_simp
  have "units_ok no_sol" by code_simp
  then show "\<not> conflict no_sol" by (rule units_ok_no_conflict)
  have c: "candidates no_sol (0, 8) = []" by code_simp
  have z: "at no_sol (0, 8) = 0" "(0, 8) \<in> set cells" by code_simp+
  show "\<forall>u. \<not> solution_of no_sol u"
    using solution_candidate[OF _ z(2,1)] by (auto simp: c)
qed

lemma solve_unique_aux:
  assumes "wf_board b" "loadBoard b = (True, s)" "solution_of b u"
    "\<forall>v. solution_of b v \<longrightarrow> v = u"
  shows "solve 2 s = Some (True, 1, s\<lparr>board := u\<rparr>)"
proof -
  note inv = loadBoard_inv[OF assms(1,2)]
  have nc: "\<not> conflict b" using inv by (simp add: search_inv_def)
  from spec_search_sound_complete[OF assms(1) nc]
  have st0: "set (spec_search b) = {s. solution_of b s}" and ds: "distinct (spec_search b)"
    by blast+
  have st: "set (spec_search b) = {u}" unfolding st0 using assms(3,4) by blast
  have "length (spec_search b) = 1" using distinct_card[OF ds] st by simp
  then obtain x where "spec_search b = [x]" by (cases "spec_search b") auto
  then have "spec_search b = [u]" using st by simp
  then show ?thesis using solve_spec[OF inv(1), of 2] inv(2) by simp
qed

section \<open>The claims about solve\<close>

text \<open>
  Claim C1.  For every board of the data model that loads successfully and has exactly
  one solution \<open>u\<close>, \<open>solve\<close> with countLimit 2 returns true, sets the count to 1 and
  leaves \<open>u\<close> in the solver's board (the masks and the empties list are those of the
  load).
\<close>

theorem solve_unique:
  assumes "wf_board b" "loadBoard b = (True, s)" "solution_of b u"
    "\<forall>v. solution_of b v \<longrightarrow> v = u"
  shows "solve 2 s = Some (True, 1, s\<lparr>board := u\<rparr>)"
  using assms by (rule solve_unique_aux)

theorem solve_unique_witness:
  "wf_board one_empty \<and> loadBoard one_empty = (True, snd (loadBoard one_empty)) \<and>
   solution_of one_empty full1 \<and>
   solve 2 (snd (loadBoard one_empty)) = Some (True, 1, (snd (loadBoard one_empty))\<lparr>board := full1\<rparr>)"
  using solve_unique[OF one_empty_props(1) loads[OF one_empty_props(1,2)] one_empty_props(3,4)]
    one_empty_props(1,3) loads[OF one_empty_props(1,2)] by blast

text \<open>
  Claim C3.  For every board of the data model that loads successfully and has two or
  more solutions, \<open>solve\<close> with countLimit 2 returns count 2 and leaves in the solver's
  board the first solution of the specification's search (minimum-candidate cell,
  candidate digits in increasing order); the result is a function of the board alone.
\<close>

theorem solve_multiple:
  assumes "wf_board b" "loadBoard b = (True, s)" "solution_of b u" "solution_of b v" "u \<noteq> v"
  shows "spec_search b \<noteq> [] \<and> solution_of b (hd (spec_search b)) \<and>
         solve 2 s = Some (True, 2, s\<lparr>board := hd (spec_search b)\<rparr>) \<and>
         (\<forall>s'. loadBoard b = (True, s') \<longrightarrow> solve 2 s' = solve 2 s)"
proof -
  note inv = loadBoard_inv[OF assms(1,2)]
  have nc: "\<not> conflict b" using inv by (simp add: search_inv_def)
  from spec_search_sound_complete[OF assms(1) nc]
  have st: "set (spec_search b) = {s. solution_of b s}" and ds: "distinct (spec_search b)"
    by blast+
  have "{u, v} \<subseteq> set (spec_search b)" using st assms(3,4) by simp
  then have "card {u, v} \<le> card (set (spec_search b))" by (intro card_mono) auto
  then have len: "2 \<le> length (spec_search b)" using distinct_card[OF ds] assms(5) by simp
  note fs = first_solution[OF assms(1) nc assms(3)]
  have "solve 2 s = Some (True, 2, s\<lparr>board := hd (spec_search b)\<rparr>)"
    using solve_spec[OF inv(1), of 2] inv(2) len by (cases "spec_search b") auto
  moreover have "\<forall>s'. loadBoard b = (True, s') \<longrightarrow> solve 2 s' = solve 2 s"
    using assms(2) by simp
  ultimately show ?thesis using fs by simp
qed

theorem solve_multiple_witness:
  "wf_board two_sol \<and> loadBoard two_sol = (True, snd (loadBoard two_sol)) \<and>
   solution_of two_sol full1 \<and> solution_of two_sol full2 \<and> full1 \<noteq> full2 \<and>
   solve 2 (snd (loadBoard two_sol))
     = Some (True, 2, (snd (loadBoard two_sol))\<lparr>board := hd (spec_search two_sol)\<rparr>)"
  using solve_multiple[OF two_sol_props(1) loads[OF two_sol_props(1,2)] two_sol_props(3,4,5)]
    two_sol_props loads[OF two_sol_props(1,2)] by blast

text \<open>
  Claim C8.  For every board of the data model that loads successfully and has no
  solution, \<open>solve\<close> returns false with count 0 for every countLimit, and the solver,
  its board included, is as \<open>loadBoard\<close> left it.
\<close>

theorem solve_unsolvable:
  assumes "wf_board b" "loadBoard b = (True, s)" "\<forall>u. \<not> solution_of b u"
  shows "solve countLimit s = Some (False, 0, s) \<and> board s = b"
proof -
  note inv = loadBoard_inv[OF assms(1,2)]
  have nc: "\<not> conflict b" using inv by (simp add: search_inv_def)
  have "set (spec_search b) = {s. solution_of b s}"
    using spec_search_sound_complete[OF assms(1) nc] by (rule conjunct1)
  then have "spec_search b = []" using assms(3) by simp
  then show ?thesis using solve_spec[OF inv(1), of countLimit] inv(2) by simp
qed

theorem solve_unsolvable_witness:
  "wf_board no_sol \<and> loadBoard no_sol = (True, snd (loadBoard no_sol)) \<and>
   solve 2 (snd (loadBoard no_sol)) = Some (False, 0, snd (loadBoard no_sol)) \<and>
   solve 0 (snd (loadBoard no_sol)) = Some (False, 0, snd (loadBoard no_sol)) \<and>
   board (snd (loadBoard no_sol)) = no_sol"
  using solve_unsolvable[OF no_sol_props(1) loads[OF no_sol_props(1,2)] no_sol_props(3), of 2]
    solve_unsolvable[OF no_sol_props(1) loads[OF no_sol_props(1,2)] no_sol_props(3), of 0]
    no_sol_props(1) loads[OF no_sol_props(1,2)] by blast

text \<open>
  Claim C9.  For every successfully loaded board and every countLimit, \<open>solve\<close>
  returns, and the masks and the empties list are then what they were after
  \<open>loadBoard\<close>; the solver is unchanged, or only its board has been overwritten with
  the first solution found.  So after a solve that found a solution of a board with an
  empty cell, the masks describe the board as loaded and not the board now stored.
\<close>

theorem solve_frame:
  assumes "wf_board b" "loadBoard b = (True, s)"
  shows "\<exists>ok cnt s'. solve countLimit s = Some (ok, cnt, s') \<and>
     rowMask s' = rowMask s \<and> colMask s' = colMask s \<and> blockMask s' = blockMask s \<and>
     empties s' = empties s \<and>
     (s' = s \<or> (ok \<and> spec_search b \<noteq> [] \<and> s' = s\<lparr>board := hd (spec_search b)\<rparr>)) \<and>
     (ok \<and> \<not> complete b \<longrightarrow>
        masks_cover (set cells) (s'\<lparr>board := b\<rparr>) \<and> \<not> masks_cover (set cells) s')"
proof -
  note inv = loadBoard_inv[OF assms]
  have nc: "\<not> conflict b" and mc: "masks_cover (set cells) s"
    using inv by (simp_all add: search_inv_def)
  show ?thesis
  proof (cases "countLimit \<le> 0 \<or> spec_search b = []")
    case True
    then have "solve countLimit s = Some (False, 0, s)"
      using solve_spec[OF inv(1), of countLimit] inv(2) by (auto simp: min_def)
    then show ?thesis by (intro exI[of _ False] exI[of _ 0] exI[of _ s]) simp
  next
    case False
    then obtain x xs where L: "spec_search b = x # xs" by (cases "spec_search b") auto
    have "set (spec_search b) = {s. solution_of b s}"
      using spec_search_sound_complete[OF assms(1) nc] by (rule conjunct1)
    then have sol: "solution_of b x" using L by auto
    have sv: "solve countLimit s = Some (True, min countLimit (int (length (x # xs))), s\<lparr>board := x\<rparr>)"
      using solve_spec[OF inv(1), of countLimit] inv(2) False L by simp
    have stale: "\<not> masks_cover (set cells) (s\<lparr>board := x\<rparr>)" if "\<not> complete b"
    proof -
      from that obtain p where "p \<in> set cells" "at b p = 0" by (auto simp: complete_iff)
      then show ?thesis using masks_stale[OF inv(1), of x p] sol inv(2) by simp
    qed
    have "masks_cover (set cells) (s\<lparr>board := x, board := b\<rparr>)"
      using mc inv(2) by (simp add: masks_cover_def)
    then show ?thesis using sv L stale
      by (intro exI[of _ True] exI[of _ "min countLimit (int (length (x # xs)))"]
            exI[of _ "s\<lparr>board := x\<rparr>"]) simp
  qed
qed

theorem solve_frame_witness:
  "wf_board one_empty \<and> loadBoard one_empty = (True, snd (loadBoard one_empty)) \<and>
   (\<exists>ok cnt s'. solve 2 (snd (loadBoard one_empty)) = Some (ok, cnt, s') \<and>
      rowMask s' = rowMask (snd (loadBoard one_empty)) \<and>
      colMask s' = colMask (snd (loadBoard one_empty)) \<and>
      blockMask s' = blockMask (snd (loadBoard one_empty)) \<and>
      empties s' = empties (snd (loadBoard one_empty)) \<and>
      ok \<and> \<not> masks_cover (set cells) s')"
proof -
  note ld = loads[OF one_empty_props(1,2)]
  from solve_frame[OF one_empty_props(1) ld, of 2] obtain ok cnt s' where
    r: "solve 2 (snd (loadBoard one_empty)) = Some (ok, cnt, s')"
      "rowMask s' = rowMask (snd (loadBoard one_empty))"
      "colMask s' = colMask (snd (loadBoard one_empty))"
      "blockMask s' = blockMask (snd (loadBoard one_empty))"
      "empties s' = empties (snd (loadBoard one_empty))"
      "ok \<and> \<not> complete one_empty \<longrightarrow> \<not> masks_cover (set cells) s'"
    by blast
  have "solve 2 (snd (loadBoard one_empty)) =
      Some (True, 1, (snd (loadBoard one_empty))\<lparr>board := full1\<rparr>)"
    by (rule solve_unique_aux[OF one_empty_props(1) ld one_empty_props(3,4)])
  then have "ok" using r(1) by simp
  then show ?thesis using r one_empty_props(1,5) ld by blast
qed

section \<open>The full-board generator\<close>

text \<open>
  \<^verbatim>\<open>std::shuffle(first, last, rng)\<close> with a \<^verbatim>\<open>std::mt19937\<close> is library code: it
  permutes the positions of the range in a way that depends on the generator's state and
  on the length of the range only, and advances the generator.  It is a parameter
  here: a function from the state and the length to a list of positions and the new
  state.
\<close>

type_synonym 'g shuffler = "'g \<Rightarrow> nat \<Rightarrow> nat list \<times> 'g"

definition shuffle_with :: "'g shuffler \<Rightarrow> 'g \<Rightarrow> 'a list \<Rightarrow> 'a list \<times> 'g" where
  "shuffle_with shuf g xs = (map (\<lambda>i. xs ! i) (fst (shuf g (length xs))), snd (shuf g (length xs)))"

text \<open>What the library promises of a shuffle: the positions come back permuted.\<close>

definition perm_shuffler :: "'g shuffler \<Rightarrow> bool" where
  "perm_shuffler shuf = (\<forall>g n. distinct (fst (shuf g n)) \<and> set (fst (shuf g n)) = {0..<n})"

text \<open>The loop \<^verbatim>\<open>while (m) { lb = m & -m; digits.push_back(ctz(lb)+1); m -= lb; }\<close>.\<close>

function mask_digits :: "mask \<Rightarrow> int list" where
  "mask_digits m = (if m = 0 then [] else
     (let lb = m AND - m in (int (ctz lb) + 1) # mask_digits (m - lb)))"
  by pat_completeness auto
termination
  by (relation "measure unat") (simp_all add: unat_clear_lowbit)

declare mask_digits.simps [simp del]

text \<open>The scan at the head of the \<^verbatim>\<open>dfs\<close> lambda of \<^verbatim>\<open>generateFullSolution\<close>; the
  locals \<^verbatim>\<open>b\<close>, \<^verbatim>\<open>rowMask\<close>, \<^verbatim>\<open>colMask\<close>, \<^verbatim>\<open>blockMask\<close> and \<^verbatim>\<open>empties\<close> are held in
  a \<open>Solver\<close> record.\<close>

fun gen_scan :: "Solver \<Rightarrow> (nat \<times> nat) list \<Rightarrow> int \<Rightarrow> int \<times> nat \<times> mask \<Rightarrow> (int \<times> nat \<times> mask) option" where
  "gen_scan s [] i best = Some best"
| "gen_scan s (e # es) i best =
    (let r = fst e; c = snd e in
     if board s ! r ! c \<noteq> 0 then gen_scan s es (i + 1) best
     else
       let used = rowMask s ! r OR colMask s ! c OR blockMask s ! blockIndex r c;
           mask = (NOT used) AND 0x1FF;
           cnt = popcount mask in
       if cnt = 0 then None
       else if cnt < fst (snd best)
       then (if cnt = 1 then Some (i, cnt, mask) else gen_scan s es (i + 1) (i, cnt, mask))
       else gen_scan s es (i + 1) best)"

text \<open>The program points of that lambda: its entry, and the \<^verbatim>\<open>for (int d : digits)\<close>
  loop at the chosen cell with the digits still to try.\<close>

datatype gframe = GDfs | GFor nat nat "int list"

partial_function (option) gen_run ::
  "'g shuffler \<Rightarrow> gframe \<Rightarrow> Solver \<times> 'g \<Rightarrow> (bool \<times> Solver \<times> 'g) option" where
  "gen_run shuf f sg =
    (case f of
       GDfs \<Rightarrow>
         (case gen_scan (fst sg) (empties (fst sg)) 0 (- 1, 10, 0) of
            None \<Rightarrow> Some (False, sg)
          | Some (bestIdx, bestCnt, bestMask) \<Rightarrow>
              if bestIdx = - 1 then Some (True, sg)
              else
                let r = fst (empties (fst sg) ! nat bestIdx);
                    c = snd (empties (fst sg) ! nat bestIdx);
                    digits = shuffle_with shuf (snd sg) (mask_digits bestMask)
                in gen_run shuf (GFor r c (fst digits)) (fst sg, snd digits))
     | GFor r c ds \<Rightarrow>
         (case ds of
            [] \<Rightarrow> Some (False, sg)
          | d # ds' \<Rightarrow>
              Option.bind (gen_run shuf GDfs (place r c d (fst sg), snd sg)) (\<lambda>(ok, s2, g2).
                if ok then Some (True, s2, g2)
                else gen_run shuf (GFor r c ds') (unplace r c d s2, g2))))"

declare gen_run.simps [code]

text \<open>\<^verbatim>\<open>generateFullSolution\<close>: a failed search starts the function again with the
  generator as the search left it.\<close>

partial_function (option) generateFullSolution :: "'g shuffler \<Rightarrow> 'g \<Rightarrow> (Board \<times> 'g) option" where
  "generateFullSolution shuf g =
     Option.bind (gen_run shuf GDfs (reset\<lparr>empties := cells\<rparr>, g)) (\<lambda>(ok, s, g').
       if \<not> ok then generateFullSolution shuf g' else Some (board s, g'))"

declare generateFullSolution.simps [code]

lemma mask_digits_eq: "nine_bits m \<Longrightarrow> mask_digits m = digits_of m"
proof (induction "unat m" arbitrary: m rule: less_induct)
  case less
  show ?case
  proof (cases "m = 0")
    case True
    then show ?thesis by (simp add: mask_digits.simps digits_of_0)
  next
    case False
    note ds = digits_of_step[OF False less.prems]
    have "mask_digits (m - (m AND - m)) = digits_of (m - (m AND - m))"
      using less.hyps[OF unat_clear_lowbit[OF False] ds(5)] .
    then show ?thesis using False ds(1)
      by (subst mask_digits.simps) (simp add: Let_def)
  qed
qed

lemma popcount_0_iff: "nine_bits m \<Longrightarrow> popcount m = 0 \<longleftrightarrow> m = 0"
  using digits_of_Nil_iff[of m] by (simp add: popcount_digits)

lemma gen_scan_eq: "gen_scan s es i best = mrv_scan s es i best"
proof (induction es arbitrary: i best)
  case Nil
  then show ?case by simp
next
  case (Cons e es)
  have m: "(NOT (rowMask s ! fst e OR colMask s ! snd e OR blockMask s ! blockIndex (fst e) (snd e)))
      AND 0x1FF = candidatesMask s (fst e) (snd e)"
    by (simp add: candidatesMask_def Let_def)
  show ?case
    unfolding gen_scan.simps mrv_scan.simps Let_def m Cons.IH
    using popcount_0_iff[OF nine_bits_candidatesMask, of s "fst e" "snd e"]
    by (cases "candidatesMask s (fst e) (snd e) = 0") simp_all
qed

lemma shuffle_with_set:
  assumes "perm_shuffler shuf"
  shows "set (fst (shuffle_with shuf g xs)) = set xs"
proof -
  have "set (fst (shuf g (length xs))) = {0..<length xs}"
    using assms by (simp add: perm_shuffler_def)
  then have "set (fst (shuffle_with shuf g xs)) = (\<lambda>i. xs ! i) ` {0..<length xs}"
    by (simp add: shuffle_with_def)
  also have "\<dots> = set xs" by (auto simp: set_conv_nth)
  finally show ?thesis .
qed

text \<open>A shuffle that returns permutations at the generator states of \<open>G\<close> and does not
  leave \<open>G\<close>.\<close>

definition perm_on :: "'g shuffler \<Rightarrow> 'g set \<Rightarrow> bool" where
  "perm_on shuf G =
     (\<forall>g\<in>G. \<forall>n. distinct (fst (shuf g n)) \<and> set (fst (shuf g n)) = {0..<n} \<and> snd (shuf g n) \<in> G)"

lemma perm_shuffler_on: "perm_shuffler shuf \<Longrightarrow> perm_on shuf UNIV"
  by (simp add: perm_shuffler_def perm_on_def)

lemma shuffle_with_on:
  assumes "perm_on shuf G" "g \<in> G"
  shows "set (fst (shuffle_with shuf g xs)) = set xs" "snd (shuffle_with shuf g xs) \<in> G"
proof -
  have "set (fst (shuf g (length xs))) = {0..<length xs}"
    using assms by (simp add: perm_on_def)
  then have "set (fst (shuffle_with shuf g xs)) = (\<lambda>i. xs ! i) ` {0..<length xs}"
    by (simp add: shuffle_with_def)
  also have "\<dots> = set xs" by (auto simp: set_conv_nth)
  finally show "set (fst (shuffle_with shuf g xs)) = set xs" .
  show "snd (shuffle_with shuf g xs) \<in> G" using assms by (simp add: perm_on_def shuffle_with_def)
qed

text \<open>What a call of the generator's \<^verbatim>\<open>dfs\<close> from solver state \<open>s\<close> returns: true with a
  solution of the board of \<open>s\<close> in place, or false with \<open>s\<close> restored, and then the board
  of \<open>s\<close> has no solution.\<close>

definition gen_post :: "Solver \<Rightarrow> bool \<Rightarrow> Solver \<Rightarrow> bool" where
  "gen_post s ok t =
     (if ok then solution_of (board s) (board t)
      else t = s \<and> (\<forall>u. \<not> solution_of (board s) u))"

lemma gen_for:
  assumes IH: "\<And>s' g'. zeros (board s') < Z \<Longrightarrow> search_inv s' \<Longrightarrow> g' \<in> G \<Longrightarrow>
      \<exists>ok t h. gen_run shuf GDfs (s', g') = Some (ok, t, h) \<and> gen_post s' ok t \<and> h \<in> G"
  shows "zeros (board s) = Z \<Longrightarrow> search_inv s \<Longrightarrow> p \<in> set cells \<Longrightarrow> at (board s) p = 0 \<Longrightarrow>
     set ds \<subseteq> set (candidates (board s) p) \<Longrightarrow> g \<in> G \<Longrightarrow>
     \<exists>ok t h. gen_run shuf (GFor (fst p) (snd p) ds) (s, g) = Some (ok, t, h) \<and> h \<in> G \<and>
        (if ok then solution_of (board s) (board t)
         else t = s \<and> (\<forall>d\<in>set ds. \<forall>u. \<not> solution_of (set_cell (board s) (fst p) (snd p) d) u))"
proof (induction ds arbitrary: g)
  case Nil
  have "gen_run shuf (GFor (fst p) (snd p) []) (s, g) = Some (False, s, g)"
    by (subst gen_run.simps) simp
  then show ?case using Nil.prems(6) by (intro exI[of _ False] exI[of _ s] exI[of _ g]) simp
next
  case (Cons d ds)
  let ?b = "board s"
  let ?s1 = "place (fst p) (snd p) d s"
  have dc: "d \<in> set (candidates ?b p)" using Cons.prems(5) by simp
  note pl = search_inv_place[OF Cons.prems(2,3,4) dc]
  have wf: "wf_board ?b" using Cons.prems(2) by (simp add: search_inv_def)
  have d0: "d \<noteq> 0" using dc by (auto simp: in_candidates)
  have z: "zeros (board ?s1) < Z"
    using zeros_set_cell[OF wf_board_dims[OF wf] Cons.prems(3,4) d0] pl(3) Cons.prems(1) by simp
  from IH[OF z pl(1) Cons.prems(6)] obtain ok t h where
    r: "gen_run shuf GDfs (?s1, g) = Some (ok, t, h)" and po: "gen_post ?s1 ok t"
    and hG: "h \<in> G" by blast
  have step: "gen_run shuf (GFor (fst p) (snd p) (d # ds)) (s, g) =
      (if ok then Some (True, t, h)
       else gen_run shuf (GFor (fst p) (snd p) ds) (unplace (fst p) (snd p) d t, h))"
    by (subst gen_run.simps) (simp add: r)
  show ?case
  proof (cases ok)
    case True
    then have "solution_of (set_cell ?b (fst p) (snd p) d) (board t)"
      using po pl(3) by (simp add: gen_post_def)
    then have "solution_of ?b (board t)"
      using solution_of_place[OF wf Cons.prems(3,4) d0] by simp
    then show ?thesis using step True hG
      by (intro exI[of _ True] exI[of _ t] exI[of _ h]) simp
  next
    case False
    then have t: "t = ?s1" and ns: "\<forall>u. \<not> solution_of (set_cell ?b (fst p) (snd p) d) u"
      using po pl(3) by (simp_all add: gen_post_def)
    have sub: "set ds \<subseteq> set (candidates ?b p)" using Cons.prems(5) by simp
    from Cons.IH[OF Cons.prems(1,2,3,4) sub hG] obtain ok' t' h' where
      r': "gen_run shuf (GFor (fst p) (snd p) ds) (s, h) = Some (ok', t', h')"
      and hG': "h' \<in> G"
      and po': "if ok' then solution_of ?b (board t')
         else t' = s \<and> (\<forall>d\<in>set ds. \<forall>u. \<not> solution_of (set_cell ?b (fst p) (snd p) d) u)"
      by blast
    have "gen_run shuf (GFor (fst p) (snd p) (d # ds)) (s, g) = Some (ok', t', h')"
      using step False t pl(2) r' by simp
    then show ?thesis using po' ns hG'
      by (intro exI[of _ ok'] exI[of _ t'] exI[of _ h']) auto
  qed
qed

lemma gen_dfs:
  assumes "perm_on shuf G"
  shows "search_inv s \<Longrightarrow> g \<in> G \<Longrightarrow>
     \<exists>ok t h. gen_run shuf GDfs (s, g) = Some (ok, t, h) \<and> gen_post s ok t \<and> h \<in> G"
proof (induction "zeros (board s)" arbitrary: s g rule: less_induct)
  case less
  let ?b = "board s"
  have wf: "wf_board ?b" and nc: "\<not> conflict ?b" and mc: "masks_cover (set cells) s"
    using less.prems(1) by (simp_all add: search_inv_def)
  note ag = mrv_scan_spec[OF less.prems(1)]
  show ?case
  proof (cases "mrv_scan s (empties s) 0 (- 1, 10, 0)")
    case None
    then have "spec_pick ?b cells None = DeadEnd" using ag by (simp add: scan_agrees_def)
    from spec_pick_DeadEnd[OF this] obtain p where p: "p \<in> set cells" "at ?b p = 0"
      "candidates ?b p = []" by blast
    have "\<not> solution_of ?b u" for u using solution_candidate[of ?b u p] p by auto
    moreover have "gen_run shuf GDfs (s, g) = Some (False, s, g)"
      using None by (subst gen_run.simps) (simp add: gen_scan_eq)
    ultimately show ?thesis using less.prems(2)
      by (intro exI[of _ False] exI[of _ s] exI[of _ g]) (simp add: gen_post_def)
  next
    case (Some res)
    obtain bi bc bm where res: "res = (bi, bc, bm)" by (cases res) auto
    show ?thesis
    proof (cases "bi = - 1")
      case True
      then have "spec_pick ?b cells None = Complete"
        using ag Some res by (simp add: scan_agrees_def)
      from spec_pick_Complete[OF this] have "\<forall>p\<in>set cells. at ?b p \<noteq> 0" by simp
      from complete_solution[OF wf nc this] have "solution_of ?b ?b" by simp
      moreover have "gen_run shuf GDfs (s, g) = Some (True, s, g)"
        using Some res True by (subst gen_run.simps) (simp add: gen_scan_eq)
      ultimately show ?thesis using less.prems(2)
        by (intro exI[of _ True] exI[of _ s] exI[of _ g]) (simp add: gen_post_def)
    next
      case False
      let ?p = "empties s ! nat bi"
      from ag Some res False have pk: "spec_pick ?b cells None = Pick ?p"
        and bm: "bm = candidatesMask s (fst ?p) (snd ?p)" and z: "at ?b ?p = 0"
        by (simp_all add: scan_agrees_def)
      from spec_pick_Pick[OF pk] have pc: "?p \<in> set cells" by auto
      have dg: "mask_digits bm = candidates ?b ?p"
        unfolding bm using mask_digits_eq[OF nine_bits_candidatesMask] candidates_mask[OF mc pc]
        by simp
      let ?sh = "shuffle_with shuf g (candidates ?b ?p)"
      note st = shuffle_with_on[OF assms less.prems(2), of "candidates ?b ?p"]
      have step: "gen_run shuf GDfs (s, g) = gen_run shuf (GFor (fst ?p) (snd ?p) (fst ?sh)) (s, snd ?sh)"
        using Some res False by (subst gen_run.simps) (simp add: gen_scan_eq Let_def dg)
      have "\<exists>ok t h. gen_run shuf (GFor (fst ?p) (snd ?p) (fst ?sh)) (s, snd ?sh) = Some (ok, t, h) \<and>
        h \<in> G \<and>
        (if ok then solution_of ?b (board t)
         else t = s \<and> (\<forall>d\<in>set (fst ?sh). \<forall>u. \<not> solution_of (set_cell ?b (fst ?p) (snd ?p) d) u))"
        using less.hyps by (rule gen_for[OF _ refl less.prems(1) pc z]) (simp_all add: st)
      then obtain ok t h where
        r: "gen_run shuf (GFor (fst ?p) (snd ?p) (fst ?sh)) (s, snd ?sh) = Some (ok, t, h)"
        and hG: "h \<in> G"
        and po: "if ok then solution_of ?b (board t)
         else t = s \<and> (\<forall>d\<in>set (fst ?sh). \<forall>u. \<not> solution_of (set_cell ?b (fst ?p) (snd ?p) d) u)"
        by blast
      have "gen_post s ok t"
      proof (cases ok)
        case True
        then show ?thesis using po by (simp add: gen_post_def)
      next
        case nok: False
        then have "\<forall>d\<in>set (candidates ?b ?p). \<forall>u. \<not> solution_of (set_cell ?b (fst ?p) (snd ?p) d) u"
          using po st(1) by simp
        then have "\<forall>u. \<not> solution_of ?b u" using solutions_split[OF wf pc z] by blast
        then show ?thesis using nok po by (simp add: gen_post_def)
      qed
      then show ?thesis using step r hG
        by (intro exI[of _ ok] exI[of _ t] exI[of _ h]) simp
    qed
  qed
qed

text \<open>The locals of \<^verbatim>\<open>generateFullSolution\<close> before its search: an empty board, empty
  masks and all 81 cells in the empties list.\<close>

lemma search_inv_start: "search_inv (reset\<lparr>empties := cells\<rparr>)"
proof -
  have at0: "at (replicate 9 (replicate 9 0)) p = 0" if "p \<in> set cells" for p
    using that by (simp add: at_def set_cells)
  have "wf_board (replicate 9 (replicate 9 0))" by (simp add: wf_board_def list_all_iff)
  moreover have "\<not> conflict (replicate 9 (replicate 9 0))"
    using at0 by (auto simp: conflict_iff)
  moreover have "covers (set cells) (replicate 9 (replicate 9 0)) u (replicate 9 0)" for u
    using at0 by (auto simp: covers_def)
  moreover have "cells = filter (\<lambda>p. True) cells" by simp
  ultimately show ?thesis unfolding search_inv_def masks_cover_def reset_def
    by (auto intro: exI[of _ "\<lambda>p. True"])
qed

lemma empty_board_no_dead_end:
  assumes "p \<in> set cells"
  shows "candidates (board (reset\<lparr>empties := cells\<rparr>)) p \<noteq> []"
proof -
  have "at (replicate 9 (replicate 9 0)) q = 0" if "q \<in> set cells" for q
    using that by (simp add: at_def set_cells)
  then have "\<not> used_in (replicate 9 (replicate 9 0)) p 1" by (auto simp: used_in_iff)
  then have "1 \<in> set (candidates (replicate 9 (replicate 9 0)) p)" by (simp add: in_candidates)
  then show ?thesis by (auto simp: reset_def)
qed

lemma generateFullSolution_solved_on:
  assumes "perm_on shuf G" "g \<in> G"
  shows "\<exists>b g'. generateFullSolution shuf g = Some (b, g') \<and> solved b \<and> g' \<in> G"
proof -
  let ?s = "reset\<lparr>empties := cells\<rparr>"
  from gen_dfs[OF assms(1) search_inv_start assms(2)] obtain ok t h where
    r: "gen_run shuf GDfs (?s, g) = Some (ok, t, h)" and po: "gen_post ?s ok t"
    and hG: "h \<in> G" by blast
  have "extends (board ?s) full1" by (simp add: extends_def reset_def at_def list_all_iff set_cells)
  then have "solution_of (board ?s) full1" using solved_full1 by (simp add: solution_of_def)
  then have ok: "ok" and sol: "solution_of (board ?s) (board t)"
    using po by (auto simp: gen_post_def split: if_splits)
  have "generateFullSolution shuf g = Some (board t, h)"
    using r ok by (subst generateFullSolution.simps) simp
  then show ?thesis using sol hG
    by (intro exI[of _ "board t"] exI[of _ h]) (simp add: solution_of_def)
qed

lemma generateFullSolution_solved:
  assumes "perm_shuffler shuf"
  shows "\<exists>b g'. generateFullSolution shuf g = Some (b, g') \<and> solved b"
  using generateFullSolution_solved_on[OF perm_shuffler_on[OF assms], of g] by blast

lemma generateFullSolution_retry:
  assumes "gen_run shuf GDfs (reset\<lparr>empties := cells\<rparr>, g) = Some (False, s, g1)"
  shows "generateFullSolution shuf g = generateFullSolution shuf g1"
  using assms by (subst generateFullSolution.simps) simp

text \<open>A search from the empty grid that is handed no digit to try at its first cell
  returns false at once, with the generator as the shuffle left it.\<close>

lemma first_search_fails:
  assumes "fst (shuffle_with shuf g (mask_digits 0x1FF)) = []"
    "snd (shuffle_with shuf g (mask_digits 0x1FF)) = g1"
  shows "gen_run shuf GDfs (reset\<lparr>empties := cells\<rparr>, g) = Some (False, reset\<lparr>empties := cells\<rparr>, g1)"
proof -
  let ?s = "reset\<lparr>empties := cells\<rparr>"
  let ?b = "board ?s"
  note ag = mrv_scan_spec[OF search_inv_start]
  have z00: "(0, 0) \<in> set cells" "at ?b (0, 0) = 0"
    by (simp_all add: set_cells at_def reset_def)
  show ?thesis
  proof (cases "mrv_scan ?s (empties ?s) 0 (- 1, 10, 0)")
    case None
    then have "spec_pick ?b cells None = DeadEnd" using ag by (simp add: scan_agrees_def)
    from spec_pick_DeadEnd[OF this] obtain p where "p \<in> set cells" "candidates ?b p = []"
      by blast
    then show ?thesis using empty_board_no_dead_end by blast
  next
    case (Some res)
    obtain bi bc bm where res: "res = (bi, bc, bm)" by (cases res) auto
    have nm: "bi \<noteq> - 1"
    proof
      assume "bi = - 1"
      then have "spec_pick ?b cells None = Complete"
        using ag Some res by (simp add: scan_agrees_def)
      from spec_pick_Complete[OF this] show False using z00 by blast
    qed
    let ?p = "empties ?s ! nat bi"
    have "bm = candidatesMask ?s (fst ?p) (snd ?p)" "nat bi < length (empties ?s)"
      using ag Some res nm by (simp_all add: scan_agrees_def)
    then have pc: "fst ?p < 9" "snd ?p < 9" and bm': "bm = candidatesMask ?s (fst ?p) (snd ?p)"
      using nth_mem[of "nat bi" cells] by (simp_all add: set_cells)
    have bm: "bm = 0x1FF"
      unfolding bm' using pc blockIndex_less[OF pc]
      by (simp add: candidatesMask_def reset_def Let_def)
    have "gen_run shuf GDfs (?s, g) =
        gen_run shuf (GFor (fst ?p) (snd ?p) (fst (shuffle_with shuf g (mask_digits 0x1FF))))
          (?s, snd (shuffle_with shuf g (mask_digits 0x1FF)))"
      using Some res nm unfolding bm
      by (subst gen_run.simps) (simp add: gen_scan_eq Let_def)
    also have "\<dots> = Some (False, ?s, g1)"
      using assms by (subst gen_run.simps) simp
    finally show ?thesis .
  qed
qed

text \<open>
  Claim C7.  Whatever the generator's state, and whatever permutations the shuffles
  return, \<open>generateFullSolution\<close> returns a complete board in which every row, every
  column and every 3x3 block contains each of the digits 1 through 9 exactly once.  It
  has no failure result: whatever the shuffle does, a first search that returns false
  makes it start again with the generator as that search left it, and if the shuffles
  are permutations from that state on, it then returns such a board.
\<close>

theorem generateFullSolution_valid:
  "(perm_shuffler shuf \<longrightarrow>
      (\<exists>b g'. generateFullSolution shuf g = Some (b, g') \<and> valid_solution b)) \<and>
   (\<forall>s g1. gen_run shuf GDfs (reset\<lparr>empties := cells\<rparr>, g) = Some (False, s, g1)
      \<longrightarrow> generateFullSolution shuf g = generateFullSolution shuf g1) \<and>
   (\<forall>G s g1. gen_run shuf GDfs (reset\<lparr>empties := cells\<rparr>, g) = Some (False, s, g1) \<and>
        perm_on shuf G \<and> g1 \<in> G
      \<longrightarrow> (\<exists>b g'. generateFullSolution shuf g = Some (b, g') \<and> valid_solution b))"
proof (intro conjI allI impI)
  assume "perm_shuffler shuf"
  from generateFullSolution_solved[OF this, of g]
  show "\<exists>b g'. generateFullSolution shuf g = Some (b, g') \<and> valid_solution b"
    using solved_valid_solution by blast
next
  fix s g1
  assume "gen_run shuf GDfs (reset\<lparr>empties := cells\<rparr>, g) = Some (False, s, g1)"
  then show "generateFullSolution shuf g = generateFullSolution shuf g1"
    by (rule generateFullSolution_retry)
next
  fix G s g1
  assume a: "gen_run shuf GDfs (reset\<lparr>empties := cells\<rparr>, g) = Some (False, s, g1) \<and>
        perm_on shuf G \<and> g1 \<in> G"
  then have r: "gen_run shuf GDfs (reset\<lparr>empties := cells\<rparr>, g) = Some (False, s, g1)"
    and pG: "perm_on shuf G" and gG: "g1 \<in> G" by simp_all
  have eq: "generateFullSolution shuf g = generateFullSolution shuf g1"
    using r by (rule generateFullSolution_retry)
  from generateFullSolution_solved_on[OF pG gG]
  obtain b g' where "generateFullSolution shuf g1 = Some (b, g')" "solved b" by blast
  then show "\<exists>b g'. generateFullSolution shuf g = Some (b, g') \<and> valid_solution b"
    unfolding eq using solved_valid_solution by blast
qed

definition id_shuffler :: "unit shuffler" where
  "id_shuffler g n = ([0..<n], g)"

lemma perm_id_shuffler: "perm_shuffler id_shuffler"
  by (simp add: perm_shuffler_def id_shuffler_def)

text \<open>A shuffle that loses every element when the generator is in state 0, and is the
  identity afterwards; it counts its calls.\<close>

definition late_shuffler :: "nat shuffler" where
  "late_shuffler g n = (if g = 0 then [] else [0..<n], Suc g)"

lemma late_shuffler_props:
  shows "perm_on late_shuffler {g. 0 < g}"
    and "gen_run late_shuffler GDfs (reset\<lparr>empties := cells\<rparr>, 0)
           = Some (False, reset\<lparr>empties := cells\<rparr>, Suc 0)"
proof -
  show "perm_on late_shuffler {g. 0 < g}" by (simp add: perm_on_def late_shuffler_def)
  show "gen_run late_shuffler GDfs (reset\<lparr>empties := cells\<rparr>, 0)
           = Some (False, reset\<lparr>empties := cells\<rparr>, Suc 0)"
    by (rule first_search_fails) (simp_all add: shuffle_with_def late_shuffler_def)
qed

theorem generateFullSolution_valid_witness:
  "perm_shuffler id_shuffler \<and>
   (\<exists>b g'. generateFullSolution id_shuffler () = Some (b, g') \<and> valid_solution b) \<and>
   gen_run late_shuffler GDfs (reset\<lparr>empties := cells\<rparr>, 0)
      = Some (False, reset\<lparr>empties := cells\<rparr>, Suc 0) \<and>
   perm_on late_shuffler {g. 0 < g} \<and> Suc 0 \<in> {g. 0 < g} \<and>
   generateFullSolution late_shuffler 0 = generateFullSolution late_shuffler (Suc 0) \<and>
   (\<exists>b g'. generateFullSolution late_shuffler 0 = Some (b, g') \<and> valid_solution b)"
proof -
  from generateFullSolution_valid[of id_shuffler "()"] perm_id_shuffler
  have 1: "\<exists>b g'. generateFullSolution id_shuffler () = Some (b, g') \<and> valid_solution b"
    by blast
  note th = generateFullSolution_valid[of late_shuffler 0]
  have m: "Suc 0 \<in> {g. 0 < g}" by simp
  from th late_shuffler_props(2)
  have 2: "generateFullSolution late_shuffler 0 = generateFullSolution late_shuffler (Suc 0)"
    by blast
  from th late_shuffler_props m
  have 3: "\<exists>b g'. generateFullSolution late_shuffler 0 = Some (b, g') \<and> valid_solution b"
    by blast
  show ?thesis using 1 2 3 perm_id_shuffler late_shuffler_props m by blast
qed

section \<open>The puzzle digger\<close>

text \<open>The count \<^verbatim>\<open>filled\<close> at the head of the loop of \<^verbatim>\<open>generatePuzzle\<close>.\<close>

definition filled :: "Board \<Rightarrow> int" where
  "filled puzzle = int (length (filter (\<lambda>p. puzzle ! fst p ! snd p \<noteq> 0) cells))"

text \<open>
  The loop \<^verbatim>\<open>for (auto pos : positions)\<close> of \<^verbatim>\<open>generatePuzzle\<close> over the positions
  still to visit.  \<^verbatim>\<open>loadBoard\<close> resets every field of the one solver the loop uses,
  so no solver is passed from one iteration to the next.  The result is \<open>None\<close> only
  if a search does not return.
\<close>

fun dig :: "int \<Rightarrow> (nat \<times> nat) list \<Rightarrow> Board \<Rightarrow> Board option" where
  "dig targetClues [] puzzle = Some puzzle"
| "dig targetClues (pos # rest) puzzle =
    (if filled puzzle \<le> targetClues then Some puzzle
     else
       let r = fst pos; c = snd pos in
       if puzzle ! r ! c = 0 then dig targetClues rest puzzle
       else
         let old = puzzle ! r ! c;
             puzzle1 = set_cell puzzle r c 0
         in (case loadBoard puzzle1 of
               (False, solver) \<Rightarrow> dig targetClues rest (set_cell puzzle1 r c old)
             | (True, solver) \<Rightarrow>
                 (case countSolutions 2 solver of
                    None \<Rightarrow> None
                  | Some (cnt, solver') \<Rightarrow>
                      if cnt \<noteq> 1 then dig targetClues rest (set_cell puzzle1 r c old)
                      else dig targetClues rest puzzle1)))"

definition generatePuzzle :: "'g shuffler \<Rightarrow> 'g \<Rightarrow> int \<Rightarrow> (Board \<times> 'g) option" where
  "generatePuzzle shuf rng targetClues =
     Option.bind (generateFullSolution shuf rng) (\<lambda>(solution, rng1).
       let positions = shuffle_with shuf rng1 cells in
       map_option (\<lambda>puzzle. (puzzle, snd positions))
         (dig targetClues (fst positions) solution))"

lemma set_cell_restore: "set_cell (set_cell p r c 0) r c (p ! r ! c) = p"
  using set_cell_same[of p r c] by (simp add: set_cell_twice at_def)

lemma dig_load_fail:
  assumes "targetClues < filled p" "p ! r ! c \<noteq> 0" "\<not> fst (loadBoard (set_cell p r c 0))"
  shows "dig targetClues ((r, c) # rest) p = dig targetClues rest p"
proof -
  obtain sv where "loadBoard (set_cell p r c 0) = (False, sv)"
    using assms(3) by (cases "loadBoard (set_cell p r c 0)") auto
  then show ?thesis using assms(1,2) by (simp add: Let_def set_cell_restore)
qed

lemma countSolutions_spec:
  assumes "search_inv s"
  shows "\<exists>s'. countSolutions 2 s = Some (min 2 (int (length (spec_search (board s)))), s')"
  using solve_spec[OF assms, of 2] by (simp add: countSolutions_def)

lemma dig_step_ok:
  assumes "wf_board p" "\<not> conflict p" "pos \<in> set cells" "targetClues < filled p" "at p pos \<noteq> 0"
  shows "dig targetClues (pos # rest) p =
     (if length (spec_search (set_cell p (fst pos) (snd pos) 0)) = 1
      then dig targetClues rest (set_cell p (fst pos) (snd pos) 0)
      else dig targetClues rest p)"
proof -
  let ?p1 = "set_cell p (fst pos) (snd pos) 0"
  note at' = at_place[OF wf_board_dims[OF assms(1)] assms(3)]
  have wf1: "wf_board ?p1" using wf_board_set_cell[OF assms(1,3), of 0] by simp
  have "extends ?p1 p" using at' by (auto simp: extends_iff)
  then have nc1: "\<not> conflict ?p1" using assms(2) by (rule extends_no_conflict)
  note ld = loads[OF wf1 nc1]
  note inv = loadBoard_inv[OF wf1 ld]
  from countSolutions_spec[OF inv(1)] obtain s' where
    cs: "countSolutions 2 (snd (loadBoard ?p1)) = Some (min 2 (int (length (spec_search ?p1))), s')"
    using inv(2) by auto
  have v: "p ! fst pos ! snd pos \<noteq> 0" using assms(5) by (simp add: at_def)
  have one: "min 2 (int (length (spec_search ?p1))) = 1 \<longleftrightarrow> length (spec_search ?p1) = 1"
    by auto
  have "dig targetClues (pos # rest) p =
     (case loadBoard ?p1 of
        (False, solver) \<Rightarrow> dig targetClues rest (set_cell ?p1 (fst pos) (snd pos) (p ! fst pos ! snd pos))
      | (True, solver) \<Rightarrow>
          (case countSolutions 2 solver of
             None \<Rightarrow> None
           | Some (cnt, solver') \<Rightarrow>
               if cnt \<noteq> 1 then dig targetClues rest (set_cell ?p1 (fst pos) (snd pos) (p ! fst pos ! snd pos))
               else dig targetClues rest ?p1))"
    using assms(4) v by (simp add: Let_def)
  also have "\<dots> = (if min 2 (int (length (spec_search ?p1))) \<noteq> 1 then dig targetClues rest p
       else dig targetClues rest ?p1)"
    by (subst ld) (simp add: cs set_cell_restore)
  finally show ?thesis unfolding one by simp
qed

lemma dig_unique:
  assumes "solved sol"
  shows "wf_board p \<Longrightarrow> extends p sol \<Longrightarrow> (\<forall>v. solution_of p v \<longrightarrow> v = sol) \<Longrightarrow>
     set ps \<subseteq> set cells \<Longrightarrow>
     \<exists>q. dig t ps p = Some q \<and> wf_board q \<and> extends q sol \<and> (\<forall>v. solution_of q v \<longrightarrow> v = sol)
        \<and> (\<forall>x\<in>set cells. at q x \<noteq> 0 \<longrightarrow> at q x = at p x)"
proof (induction ps arbitrary: p)
  case Nil
  then show ?case by simp
next
  case (Cons pos ps)
  have ncs: "\<not> conflict sol" using assms by (simp add: solved_def)
  have nc: "\<not> conflict p" using Cons.prems(2) ncs by (rule extends_no_conflict)
  have pc: "pos \<in> set cells" and sub: "set ps \<subseteq> set cells" using Cons.prems(4) by auto
  note ih = Cons.IH[OF _ _ _ sub]
  show ?case
  proof (cases "filled p \<le> t")
    case True
    then show ?thesis using Cons.prems by simp
  next
    case False
    then have tf: "t < filled p" by simp
    show ?thesis
    proof (cases "at p pos = 0")
      case True
      then have "dig t (pos # ps) p = dig t ps p" using False by (simp add: at_def Let_def)
      then show ?thesis using ih[OF Cons.prems(1,2,3)] by simp
    next
      case nz: False
      let ?p1 = "set_cell p (fst pos) (snd pos) 0"
      note st = dig_step_ok[OF Cons.prems(1) nc pc tf nz, of ps]
      show ?thesis
      proof (cases "length (spec_search ?p1) = 1")
        case False
        then show ?thesis using st ih[OF Cons.prems(1,2,3)] by simp
      next
        case True
        note at' = at_place[OF wf_board_dims[OF Cons.prems(1)] pc]
        have wf1: "wf_board ?p1" using wf_board_set_cell[OF Cons.prems(1) pc, of 0] by simp
        have ex1: "extends ?p1 sol" using Cons.prems(2) at' by (auto simp: extends_iff)
        have nc1: "\<not> conflict ?p1" using ex1 ncs by (rule extends_no_conflict)
        have sset: "set (spec_search ?p1) = {s. solution_of ?p1 s}"
          using spec_search_sound_complete[OF wf1 nc1] by (rule conjunct1)
        from True obtain x where x: "spec_search ?p1 = [x]"
          by (cases "spec_search ?p1") auto
        have "solution_of ?p1 sol" using ex1 assms by (simp add: solution_of_def)
        then have "sol \<in> set (spec_search ?p1)" using sset by simp
        then have xs: "x = sol" using x by simp
        have un1: "\<forall>v. solution_of ?p1 v \<longrightarrow> v = sol"
        proof (intro allI impI)
          fix v assume "solution_of ?p1 v"
          then have "v \<in> set (spec_search ?p1)" using sset by simp
          then show "v = sol" using x xs by simp
        qed
        from ih[OF wf1 ex1 un1] obtain q where q: "dig t ps ?p1 = Some q" "wf_board q"
          "extends q sol" "\<forall>v. solution_of q v \<longrightarrow> v = sol"
          "\<forall>x\<in>set cells. at q x \<noteq> 0 \<longrightarrow> at q x = at ?p1 x" by blast
        have "\<forall>x\<in>set cells. at q x \<noteq> 0 \<longrightarrow> at q x = at p x"
          using q(5) at' by (metis (full_types))
        then show ?thesis using st True q(1-4) by simp
      qed
    qed
  qed
qed

lemma unique_load_solve:
  assumes "solved sol" "wf_board q" "extends q sol" "\<forall>v. solution_of q v \<longrightarrow> v = sol"
  shows "loadBoard q = (True, snd (loadBoard q))"
    and "solve 2 (snd (loadBoard q)) = Some (True, 1, (snd (loadBoard q))\<lparr>board := sol\<rparr>)"
proof -
  have "\<not> conflict sol" using assms(1) by (simp add: solved_def)
  with assms(3) have nc: "\<not> conflict q" by (rule extends_no_conflict)
  show ld: "loadBoard q = (True, snd (loadBoard q))" using assms(2) nc by (rule loads)
  have "solution_of q sol" using assms(1,3) by (simp add: solution_of_def)
  then show "solve 2 (snd (loadBoard q)) = Some (True, 1, (snd (loadBoard q))\<lparr>board := sol\<rparr>)"
    using solve_unique_aux[OF assms(2) ld] assms(4) by blast
qed

lemma solved_self:
  assumes "solved sol"
  shows "wf_board sol" "extends sol sol" "\<forall>v. solution_of sol v \<longrightarrow> v = sol"
proof -
  from assms show wf: "wf_board sol" by (simp add: solved_def)
  show "extends sol sol" by (simp add: extends_iff)
  have "\<forall>p\<in>set cells. at sol p \<noteq> 0" "\<not> conflict sol"
    using assms by (simp_all add: solved_def complete_iff)
  from complete_solution[OF wf this(2,1)] show "\<forall>v. solution_of sol v \<longrightarrow> v = sol" by simp
qed

lemma generatePuzzle_spec:
  assumes "perm_shuffler shuf"
  shows "\<exists>sol g1 q g2. generateFullSolution shuf g = Some (sol, g1) \<and>
     generatePuzzle shuf g t = Some (q, g2) \<and> solved sol \<and> wf_board q \<and> extends q sol \<and>
     (\<forall>v. solution_of q v \<longrightarrow> v = sol) \<and> (\<forall>x\<in>set cells. at q x \<noteq> 0 \<longrightarrow> at q x = at sol x)"
proof -
  from generateFullSolution_solved[OF assms, of g] obtain sol g1 where
    gs: "generateFullSolution shuf g = Some (sol, g1)" and sv: "solved sol" by blast
  let ?pos = "shuffle_with shuf g1 cells"
  have sub: "set (fst ?pos) \<subseteq> set cells" using shuffle_with_set[OF assms, of g1 cells] by simp
  note ss = solved_self[OF sv]
  from dig_unique[OF sv ss sub, of t] obtain q where q: "dig t (fst ?pos) sol = Some q"
    "wf_board q" "extends q sol" "\<forall>v. solution_of q v \<longrightarrow> v = sol"
    "\<forall>x\<in>set cells. at q x \<noteq> 0 \<longrightarrow> at q x = at sol x" by blast
  have "generatePuzzle shuf g t = Some (q, snd ?pos)"
    by (simp add: generatePuzzle_def gs Let_def q(1))
  then show ?thesis using gs sv q(2-5) by blast
qed


text \<open>
  Claim C2.  Whatever the generator's state and the target, the board that
  \<open>generatePuzzle\<close> returns loads, and a search with countLimit 2 counts exactly one
  solution of it; the same holds for the digging loop started from any solved board
  with any list of positions of the grid.
\<close>

theorem generatePuzzle_unique:
  assumes "perm_shuffler shuf"
  shows "(\<exists>q g' s'. generatePuzzle shuf g targetClues = Some (q, g') \<and>
            loadBoard q = (True, snd (loadBoard q)) \<and>
            countSolutions 2 (snd (loadBoard q)) = Some (1, s') \<and>
            (\<exists>u. solution_of q u \<and> (\<forall>v. solution_of q v \<longrightarrow> v = u))) \<and>
         (\<forall>sol ps. solved sol \<and> set ps \<subseteq> set cells \<longrightarrow>
            (\<exists>q s'. dig targetClues ps sol = Some q \<and>
               loadBoard q = (True, snd (loadBoard q)) \<and>
               countSolutions 2 (snd (loadBoard q)) = Some (1, s')))"
proof (intro conjI allI impI)
  from generatePuzzle_spec[OF assms, of g targetClues] obtain sol g1 q g2 where
    r: "generatePuzzle shuf g targetClues = Some (q, g2)" "solved sol" "wf_board q"
      "extends q sol" "\<forall>v. solution_of q v \<longrightarrow> v = sol" by blast
  note ls = unique_load_solve[OF r(2,3,4,5)]
  have "countSolutions 2 (snd (loadBoard q)) = Some (1, (snd (loadBoard q))\<lparr>board := sol\<rparr>)"
    using ls(2) by (simp add: countSolutions_def)
  moreover have "solution_of q sol" using r(2,4) by (simp add: solution_of_def)
  ultimately show "\<exists>q g' s'. generatePuzzle shuf g targetClues = Some (q, g') \<and>
            loadBoard q = (True, snd (loadBoard q)) \<and>
            countSolutions 2 (snd (loadBoard q)) = Some (1, s') \<and>
            (\<exists>u. solution_of q u \<and> (\<forall>v. solution_of q v \<longrightarrow> v = u))"
    using r(1,5) ls(1) by blast
next
  fix sol ps
  assume a: "solved sol \<and> set ps \<subseteq> set cells"
  then have sv: "solved sol" and sub: "set ps \<subseteq> set cells" by simp_all
  from dig_unique[OF sv solved_self[OF sv] sub, of targetClues] obtain q where
    q: "dig targetClues ps sol = Some q" "wf_board q" "extends q sol"
      "\<forall>v. solution_of q v \<longrightarrow> v = sol" by blast
  note ls = unique_load_solve[OF sv q(2,3,4)]
  have "countSolutions 2 (snd (loadBoard q)) = Some (1, (snd (loadBoard q))\<lparr>board := sol\<rparr>)"
    using ls(2) by (simp add: countSolutions_def)
  then show "\<exists>q s'. dig targetClues ps sol = Some q \<and>
               loadBoard q = (True, snd (loadBoard q)) \<and>
               countSolutions 2 (snd (loadBoard q)) = Some (1, s')"
    using q(1) ls(1) by blast
qed

theorem generatePuzzle_unique_witness:
  "perm_shuffler id_shuffler \<and>
   (\<exists>q g' s'. generatePuzzle id_shuffler () 30 = Some (q, g') \<and>
       loadBoard q = (True, snd (loadBoard q)) \<and>
       countSolutions 2 (snd (loadBoard q)) = Some (1, s')) \<and>
   solved full1 \<and> set cells \<subseteq> set cells \<and>
   (\<exists>q s'. dig 30 cells full1 = Some q \<and>
       loadBoard q = (True, snd (loadBoard q)) \<and>
       countSolutions 2 (snd (loadBoard q)) = Some (1, s'))"
proof -
  note th = generatePuzzle_unique[OF perm_id_shuffler, of "()" 30]
  from th have 1: "\<exists>q g' s'. generatePuzzle id_shuffler () 30 = Some (q, g') \<and>
       loadBoard q = (True, snd (loadBoard q)) \<and>
       countSolutions 2 (snd (loadBoard q)) = Some (1, s')" by blast
  from th solved_full1 have 2: "\<exists>q s'. dig 30 cells full1 = Some q \<and>
       loadBoard q = (True, snd (loadBoard q)) \<and>
       countSolutions 2 (snd (loadBoard q)) = Some (1, s')" by blast
  show ?thesis using 1 2 perm_id_shuffler solved_full1 by blast
qed

text \<open>
  Claim C10.  Whatever the generator's state and the target, every nonzero cell of the
  board that \<open>generatePuzzle\<close> returns equals the same cell of the solution that
  \<open>generateFullSolution\<close> produced at its start, so that solution solves the puzzle.
\<close>

theorem generatePuzzle_clues:
  assumes "perm_shuffler shuf"
  shows "\<exists>sol g1 q g2. generateFullSolution shuf g = Some (sol, g1) \<and>
     generatePuzzle shuf g targetClues = Some (q, g2) \<and>
     (\<forall>x\<in>set cells. at q x \<noteq> 0 \<longrightarrow> at q x = at sol x) \<and> solution_of q sol"
proof -
  from generatePuzzle_spec[OF assms, of g targetClues] obtain sol g1 q g2 where
    r: "generateFullSolution shuf g = Some (sol, g1)"
      "generatePuzzle shuf g targetClues = Some (q, g2)" "solved sol" "extends q sol"
      "\<forall>x\<in>set cells. at q x \<noteq> 0 \<longrightarrow> at q x = at sol x" by blast
  have "solution_of q sol" using r(3,4) by (simp add: solution_of_def)
  then show ?thesis using r(1,2,5) by blast
qed

theorem generatePuzzle_clues_witness:
  "perm_shuffler id_shuffler \<and>
   (\<exists>sol g1 q g2. generateFullSolution id_shuffler () = Some (sol, g1) \<and>
     generatePuzzle id_shuffler () 30 = Some (q, g2) \<and> solution_of q sol)"
proof -
  from generatePuzzle_clues[OF perm_id_shuffler, of "()" 30]
  have "\<exists>sol g1 q g2. generateFullSolution id_shuffler () = Some (sol, g1) \<and>
     generatePuzzle id_shuffler () 30 = Some (q, g2) \<and> solution_of q sol" by blast
  then show ?thesis using perm_id_shuffler by blast
qed

text \<open>
  The reload inside the loop cannot fail: clearing a cell of a conflict-free board
  leaves it conflict free, and the loop only ever holds boards that the generated
  solution extends.  The branch of the source that follows a failed reload, which
  \<open>dig_load_fail\<close> describes, is therefore never taken.
\<close>

lemma dig_reload_succeeds:
  assumes "wf_board p" "\<not> conflict p" "pos \<in> set cells"
  shows "fst (loadBoard (set_cell p (fst pos) (snd pos) 0))"
proof -
  let ?p1 = "set_cell p (fst pos) (snd pos) 0"
  note at' = at_place[OF wf_board_dims[OF assms(1)] assms(3)]
  have wf1: "wf_board ?p1" using wf_board_set_cell[OF assms(1,3), of 0] by simp
  have "extends ?p1 p" using at' by (auto simp: extends_iff)
  then have "\<not> conflict ?p1" using assms(2) by (rule extends_no_conflict)
  then show ?thesis using loadBoard_ok[OF wf1] by simp
qed

section \<open>The masks during a search\<close>












end
